theory Spec2Isabelle
  imports Main "HOL-Library.Sublist"
begin

section \<open>Characters and strings\<close>

text \<open>
  The owner-name parser of \<^verbatim>\<open>src/Alachua/ownerMapping.js\<close> works on JavaScript strings,
  which are sequences of UTF-16 code units. Here a string is a HOL \<^typ>\<open>string\<close> and a
  \<^typ>\<open>char\<close> stands for the code unit of the same value, so the embedding covers the
  inputs whose code units are below 256 (ASCII and Latin-1).

  \<^item> \<open>is_ws\<close> is the class \<^verbatim>\<open>\s\<close> (also what \<^verbatim>\<open>trim\<close> removes) on that range: tab, line
    feed, vertical tab, form feed, carriage return, space and the no-break space.
  \<^item> \<open>is_word\<close> is \<^verbatim>\<open>\w\<close>, that is \<^verbatim>\<open>[A-Za-z0-9_]\<close>; \<open>is_letter\<close> is \<^verbatim>\<open>[A-Za-z]\<close>.
  \<^item> \<open>to_lower\<close> is \<^verbatim>\<open>toLowerCase\<close> on one code unit.
  \<^item> \<open>to_upper\<close> is \<^verbatim>\<open>toUpperCase\<close> on one code unit, and the canonical form that a regular
    expression with flag \<^verbatim>\<open>i\<close> compares. The three code units 0xB5, 0xDF and 0xFF, whose
    upper-case forms are not a single code unit below 256, are left as they are: as a
    canonical form that is exact, as \<^verbatim>\<open>toUpperCase\<close> it is not, and the parser calls
    \<^verbatim>\<open>toUpperCase\<close> only on tokens and title-cased tokens, which hold none of them.
\<close>

definition is_ws :: "char \<Rightarrow> bool" where
  "is_ws c = (let n = (of_char c :: nat) in (9 \<le> n \<and> n \<le> 13) \<or> n = 32 \<or> n = 160)"

definition is_word :: "char \<Rightarrow> bool" where
  "is_word c = (let n = (of_char c :: nat) in
     (48 \<le> n \<and> n \<le> 57) \<or> (65 \<le> n \<and> n \<le> 90) \<or> n = 95 \<or> (97 \<le> n \<and> n \<le> 122))"

definition is_letter :: "char \<Rightarrow> bool" where
  "is_letter c = (let n = (of_char c :: nat) in (65 \<le> n \<and> n \<le> 90) \<or> (97 \<le> n \<and> n \<le> 122))"

definition to_lower :: "char \<Rightarrow> char" where
  "to_lower c = (let n = (of_char c :: nat) in
     if (65 \<le> n \<and> n \<le> 90) \<or> (192 \<le> n \<and> n \<le> 222 \<and> n \<noteq> 215)
     then char_of (n + 32) else c)"

definition to_upper :: "char \<Rightarrow> char" where
  "to_upper c = (let n = (of_char c :: nat) in
     if (97 \<le> n \<and> n \<le> 122) \<or> (224 \<le> n \<and> n \<le> 254 \<and> n \<noteq> 247)
     then char_of (n - 32) else c)"

text \<open>Whether five bits, lowest first, are a number from 1 to 26: the place of a letter in
  the alphabet.\<close>

definition in_1_26 :: "bool \<Rightarrow> bool \<Rightarrow> bool \<Rightarrow> bool \<Rightarrow> bool \<Rightarrow> bool" where
  "in_1_26 b0 b1 b2 b3 b4 = ((b0 \<or> b1 \<or> b2 \<or> b3 \<or> b4) \<and> \<not> (b4 \<and> b3 \<and> (b2 \<or> (b1 \<and> b0))))"

definition toLowerCase :: "string \<Rightarrow> string" where
  "toLowerCase s = map to_lower s"

definition toUpperCase :: "string \<Rightarrow> string" where
  "toUpperCase s = map to_upper s"

text \<open>\<^verbatim>\<open>s.trim()\<close>.\<close>

definition trim :: "string \<Rightarrow> string" where
  "trim s = rev (dropWhile is_ws (rev (dropWhile is_ws s)))"

text \<open>\<^verbatim>\<open>s.replace(/\s+/g, " ")\<close>: every maximal run of white space becomes one space.\<close>

function replace_ws_runs :: "string \<Rightarrow> string" where
  "replace_ws_runs [] = []"
| "replace_ws_runs (c # cs) =
     (if is_ws c then CHR '' '' # replace_ws_runs (dropWhile is_ws cs)
      else c # replace_ws_runs cs)"
  by pat_completeness auto
termination
  by (relation "measure length") (auto simp: le_imp_less_Suc length_dropWhile_le)

text \<open>\<^verbatim>\<open>s.replace(/\s{2,}/g, " ")\<close>: every maximal run of two or more white space
  characters becomes one space; a single white space character stays as it is.\<close>

function replace_ws_pairs :: "string \<Rightarrow> string" where
  "replace_ws_pairs [] = []"
| "replace_ws_pairs [c] = [c]"
| "replace_ws_pairs (c # d # cs) =
     (if is_ws c \<and> is_ws d then CHR '' '' # replace_ws_pairs (dropWhile is_ws cs)
      else c # replace_ws_pairs (d # cs))"
  by pat_completeness auto
termination
  by (relation "measure length") (auto simp: le_imp_less_Suc length_dropWhile_le less_Suc_eq_le le_SucI)

text \<open>\<^verbatim>\<open>s.replace(/^\*/, "")\<close> and \<^verbatim>\<open>s.replace(/^\*+/, "")\<close>.\<close>

fun strip_star :: "string \<Rightarrow> string" where
  "strip_star [] = []"
| "strip_star (c # cs) = (if c = CHR ''*'' then cs else c # cs)"

definition strip_stars :: "string \<Rightarrow> string" where
  "strip_stars s = dropWhile (\<lambda>c. c = CHR ''*'') s"

text \<open>\<^verbatim>\<open>s.split(" ")\<close> with a one-character separator, where \<open>acc\<close> is the piece collected so
  far (the empty string gives one empty piece), and \<^verbatim>\<open>xs.join(" ")\<close>.\<close>

fun split_char_loop :: "char \<Rightarrow> string \<Rightarrow> string \<Rightarrow> string list" where
  "split_char_loop d acc [] = [acc]"
| "split_char_loop d acc (c # cs) =
     (if c = d then acc # split_char_loop d [] cs else split_char_loop d (acc @ [c]) cs)"

definition split_char :: "char \<Rightarrow> string \<Rightarrow> string list" where
  "split_char d s = split_char_loop d [] s"

fun join :: "string \<Rightarrow> string list \<Rightarrow> string" where
  "join sep [] = []"
| "join sep [x] = x"
| "join sep (x # y # ys) = x @ sep @ join sep (y # ys)"

text \<open>Lines 10-14, \<^verbatim>\<open>cleanText\<close>: both replacements, then \<^verbatim>\<open>trim\<close>. The argument is always
  a string where the parser calls it, so \<^verbatim>\<open>(t || "")\<close> is \<open>t\<close>.\<close>

definition cleanText :: "string \<Rightarrow> string" where
  "cleanText t = trim (replace_ws_runs (replace_ws_runs t))"

text \<open>Lines 15-19, \<^verbatim>\<open>titleCase\<close>: \<^verbatim>\<open>s.replace(/\w\S*/g, w => w.charAt(0).toUpperCase() +
  w.slice(1).toLowerCase())\<close>. A match starts at a word character and runs to the next white
  space; a character that starts no match is copied.\<close>

function titleCase :: "string \<Rightarrow> string" where
  "titleCase [] = []"
| "titleCase (c # cs) =
     (if is_word c
      then to_upper c # toLowerCase (takeWhile (\<lambda>x. \<not> is_ws x) cs)
             @ titleCase (dropWhile (\<lambda>x. \<not> is_ws x) cs)
      else c # titleCase cs)"
  by pat_completeness auto
termination
  by (relation "measure length") (auto simp: le_imp_less_Suc length_dropWhile_le)

section \<open>Regular expressions\<close>

text \<open>
  The patterns that the parser tests and splits with are matched by backtracking. A position
  is the character before it (if any) and the rest of the input; \<open>rx_ends\<close> lists the
  positions at which a match of the pattern starting at a position can end, in the order in
  which backtracking tries them, so that the head is the match JavaScript takes. The flag
  \<open>ic\<close> is \<^verbatim>\<open>i\<close>. A quantified part that matched nothing is not repeated. \<open>Eps\<close> is the
  empty pattern and \<open>Never\<close> the pattern that matches nothing; they end a literal and an
  alternation.
\<close>

datatype regex =
    Eps
  | Never
  | Chr char
  | Ws
  | WordB
  | Bol
  | Eol
  | Seq regex regex
  | Or regex regex
  | Opt regex
  | Star regex

type_synonym rpos = "char option \<times> string"

definition chr_eq :: "bool \<Rightarrow> char \<Rightarrow> char \<Rightarrow> bool" where
  "chr_eq ic c x = (if ic then to_upper c = to_upper x else c = x)"

fun word_before :: "char option \<Rightarrow> bool" where
  "word_before None = False"
| "word_before (Some c) = is_word c"

fun word_after :: "string \<Rightarrow> bool" where
  "word_after [] = False"
| "word_after (c # cs) = is_word c"

function rx_ends :: "bool \<Rightarrow> regex \<Rightarrow> rpos \<Rightarrow> rpos list" where
  "rx_ends ic Eps pos = [pos]"
| "rx_ends ic Never pos = []"
| "rx_ends ic (Chr c) (p, []) = []"
| "rx_ends ic (Chr c) (p, x # xs) = (if chr_eq ic c x then [(Some x, xs)] else [])"
| "rx_ends ic Ws (p, []) = []"
| "rx_ends ic Ws (p, x # xs) = (if is_ws x then [(Some x, xs)] else [])"
| "rx_ends ic WordB (p, xs) = (if word_before p \<noteq> word_after xs then [(p, xs)] else [])"
| "rx_ends ic Bol (p, xs) = (if p = None then [(p, xs)] else [])"
| "rx_ends ic Eol (p, xs) = (if xs = [] then [(p, xs)] else [])"
| "rx_ends ic (Seq a b) pos = concat (map (rx_ends ic b) (rx_ends ic a pos))"
| "rx_ends ic (Or a b) pos = rx_ends ic a pos @ rx_ends ic b pos"
| "rx_ends ic (Opt a) pos =
     filter (\<lambda>q. length (snd q) < length (snd pos)) (rx_ends ic a pos) @ [pos]"
| "rx_ends ic (Star a) pos =
     concat (map (\<lambda>q. if length (snd q) < length (snd pos) then rx_ends ic (Star a) q else [])
                 (rx_ends ic a pos)) @ [pos]"
  by pat_completeness auto
termination
  by (relation "measures [\<lambda>(ic, r, pos). size r, \<lambda>(ic, r, pos). length (snd pos)]") auto

text \<open>A literal word, and an alternation of several patterns.\<close>

fun lit :: "string \<Rightarrow> regex" where
  "lit [] = Eps"
| "lit (c # cs) = Seq (Chr c) (lit cs)"

fun alts :: "regex list \<Rightarrow> regex" where
  "alts [] = Never"
| "alts (r # rs) = Or r (alts rs)"

text \<open>\<^verbatim>\<open>re.test(s)\<close> for a pattern without flag \<^verbatim>\<open>g\<close>: a match may start at any position.\<close>

fun rx_search :: "bool \<Rightarrow> regex \<Rightarrow> char option \<Rightarrow> string \<Rightarrow> bool" where
  "rx_search ic r p [] = (rx_ends ic r (p, []) \<noteq> [])"
| "rx_search ic r p (x # xs) = (rx_ends ic r (p, x # xs) \<noteq> [] \<or> rx_search ic r (Some x) xs)"

definition rx_test :: "bool \<Rightarrow> regex \<Rightarrow> string \<Rightarrow> bool" where
  "rx_test ic r s = rx_search ic r None s"

text \<open>\<^verbatim>\<open>s.split(re)\<close>: the piece collected so far, and the position reached. At each position
  the pattern is tried; a match that is not empty ends the piece and the search goes on where
  the match ended. An empty match at the start of a piece is passed over, and an empty match
  further on ends the piece there. The empty string gives one empty piece unless the pattern
  matches it.\<close>

function js_split_loop :: "bool \<Rightarrow> regex \<Rightarrow> string \<Rightarrow> char option \<Rightarrow> string \<Rightarrow> string list" where
  "js_split_loop ic r acc p [] = [acc]"
| "js_split_loop ic r acc p (x # xs) =
     (case rx_ends ic r (p, x # xs) of
        [] \<Rightarrow> js_split_loop ic r (acc @ [x]) (Some x) xs
      | e # es \<Rightarrow>
          if length (snd e) \<le> length xs then acc # js_split_loop ic r [] (fst e) (snd e)
          else if acc = [] then js_split_loop ic r (acc @ [x]) (Some x) xs
          else acc # js_split_loop ic r [] p (x # xs))"
  by pat_completeness auto
termination
  by (relation "measures [\<lambda>(ic, r, acc, p, s). length s, \<lambda>(ic, r, acc, p, s). length acc]") auto

definition js_split :: "bool \<Rightarrow> regex \<Rightarrow> string \<Rightarrow> string list" where
  "js_split ic r s =
     (if s = [] then (if rx_ends ic r (None, []) = [] then [[]] else [])
      else js_split_loop ic r [] None s)"

section \<open>The patterns of the parser\<close>

text \<open>Lines 55-56, \<^verbatim>\<open>COMPANY_KEYWORDS\<close>, with flag \<^verbatim>\<open>i\<close>:
  \<^verbatim>\<open>(\b|\s)(inc\.?|l\.l\.c\.|llc|ltd\.?|foundation|alliance|solutions|corp\.?|co\.?|services|
  trust\b|tr\b|associates|partners|lp\b|llp\b|bank\b|n\.a\.|na\b|pllc\b|company|enterprises|
  properties|holdings)(\b|\s)\<close>.\<close>

definition COMPANY_KEYWORDS :: regex where
  "COMPANY_KEYWORDS =
     Seq (Or WordB Ws)
      (Seq (alts
        [Seq (lit ''inc'') (Opt (Chr CHR ''.'')),
         lit ''l.l.c.'',
         lit ''llc'',
         Seq (lit ''ltd'') (Opt (Chr CHR ''.'')),
         lit ''foundation'',
         lit ''alliance'',
         lit ''solutions'',
         Seq (lit ''corp'') (Opt (Chr CHR ''.'')),
         Seq (lit ''co'') (Opt (Chr CHR ''.'')),
         lit ''services'',
         Seq (lit ''trust'') WordB,
         Seq (lit ''tr'') WordB,
         lit ''associates'',
         lit ''partners'',
         Seq (lit ''lp'') WordB,
         Seq (lit ''llp'') WordB,
         Seq (lit ''bank'') WordB,
         lit ''n.a.'',
         Seq (lit ''na'') WordB,
         Seq (lit ''pllc'') WordB,
         lit ''company'',
         lit ''enterprises'',
         lit ''properties'',
         lit ''holdings''])
      (Or WordB Ws))"

text \<open>Lines 57-58, \<^verbatim>\<open>SUFFIXES_IGNORE\<close>, with flag \<^verbatim>\<open>i\<close>:
  \<^verbatim>\<open>^(jr|sr|ii|iii|iv|v|vi|vii|viii|ix|x|md|phd|esq|esquire)$\<close>.\<close>

definition SUFFIXES_IGNORE :: regex where
  "SUFFIXES_IGNORE =
     Seq Bol (Seq (alts (map lit
       [''jr'', ''sr'', ''ii'', ''iii'', ''iv'', ''v'', ''vi'', ''vii'', ''viii'', ''ix'', ''x'',
        ''md'', ''phd'', ''esq'', ''esquire''])) Eol)"

text \<open>Line 160, \<^verbatim>\<open>/\s*,\s*/\<close>, and line 173, \<^verbatim>\<open>/\s*(?:&|\band\b)\s*/i\<close>.\<close>

definition COMMA_SPLIT :: regex where
  "COMMA_SPLIT = Seq (Star Ws) (Seq (Chr CHR '','') (Star Ws))"

definition AND_SPLIT :: regex where
  "AND_SPLIT =
     Seq (Star Ws) (Seq (Or (Chr CHR ''&'') (Seq WordB (Seq (lit ''and'') WordB))) (Star Ws))"

text \<open>Lines 73-75.\<close>

definition isCompanyName :: "string \<Rightarrow> bool" where
  "isCompanyName txt = rx_test True COMPANY_KEYWORDS txt"

section \<open>Values that may be null\<close>

text \<open>A JavaScript value that is a string, \<^verbatim>\<open>null\<close> or \<^verbatim>\<open>undefined\<close> is a \<open>string option\<close>.
  \<open>truthy\<close> is its truth value (a string that is not empty), \<open>or_null\<close> is \<^verbatim>\<open>v || null\<close>,
  \<open>or_empty\<close> is \<^verbatim>\<open>v || ""\<close>, and \<open>at xs i\<close> is \<^verbatim>\<open>xs[i]\<close>, undefined out of range. Calling a
  method on \<^verbatim>\<open>undefined\<close> raises a \<^verbatim>\<open>TypeError\<close>.\<close>

datatype js_error = TypeError

definition truthy :: "string option \<Rightarrow> bool" where
  "truthy v = (case v of None \<Rightarrow> False | Some s \<Rightarrow> s \<noteq> [])"

definition or_null :: "string option \<Rightarrow> string option" where
  "or_null v = (if truthy v then v else None)"

definition or_empty :: "string option \<Rightarrow> string" where
  "or_empty v = (case v of None \<Rightarrow> [] | Some s \<Rightarrow> s)"

definition at :: "'a list \<Rightarrow> nat \<Rightarrow> 'a option" where
  "at xs i = (if i < length xs then Some (xs ! i) else None)"

section \<open>Owners\<close>

datatype owner =
    Person string "string option" string
  | Company string

text \<open>\<open>Person first middle last\<close> is \<^verbatim>\<open>{type: "person", first_name, last_name, middle_name}\<close>
  and \<open>Company name\<close> is \<^verbatim>\<open>{type: "company", name}\<close>.\<close>

fun middle_name :: "owner \<Rightarrow> string option" where
  "middle_name (Person f m l) = m"
| "middle_name (Company n) = None"

fun last_name :: "owner \<Rightarrow> string option" where
  "last_name (Person f m l) = Some l"
| "last_name (Company n) = None"

record invalid_entry =
  raw :: string
  reason :: string

record parse_result =
  owners :: "owner list"
  invalids :: "invalid_entry list"

text \<open>Lines 60-71. The owner is never null and has one of the two types, so the key is a
  string.\<close>

fun normalizeOwnerKey :: "owner \<Rightarrow> string" where
  "normalizeOwnerKey (Company n) = toLowerCase (cleanText n)"
| "normalizeOwnerKey (Person f m l) =
     trim (join '' '' (filter (\<lambda>s. s \<noteq> [])
       [toLowerCase f, toLowerCase (or_empty m), toLowerCase l]))"

text \<open>Lines 77-85. \<open>name_char\<close> is the class \<^verbatim>\<open>[A-Za-z&'\-\s\.]\<close>.\<close>

definition name_char :: "char \<Rightarrow> bool" where
  "name_char c = (is_letter c \<or> c = CHR ''&'' \<or> c = CHR 0x27 \<or> c = CHR ''-'' \<or> is_ws c
     \<or> c = CHR ''.'')"

definition tokenizeNamePart :: "string \<Rightarrow> string list" where
  "tokenizeNamePart part =
     filter (\<lambda>t. t \<noteq> [])
       (split_char CHR '' ''
         (trim (replace_ws_runs
           (map (\<lambda>c. if name_char c then c else CHR '' '') (strip_stars (cleanText part))))))"

section \<open>Building persons\<close>

text \<open>Lines 99-105: the condition under which a part is read as FIRST [MIDDLE] with the
  fallback last name.\<close>

definition surname_omitted :: "string list \<Rightarrow> string option \<Rightarrow> bool" where
  "surname_omitted tokens fallbackLastName =
     (truthy fallbackLastName \<and> length tokens \<le> 2 \<and> truthy (at tokens 0) \<and>
      (case at tokens 0 of None \<Rightarrow> False | Some t \<Rightarrow> t = toUpperCase t) \<and>
      truthy (at tokens 1))"

text \<open>Lines 112-116: the ignored suffixes are filtered out of the middle name.\<close>

definition clean_middle :: "string option \<Rightarrow> string option" where
  "clean_middle middle =
     (if truthy middle
      then or_null (Some (join '' ''
             (filter (\<lambda>t. \<not> rx_test True SUFFIXES_IGNORE t)
                (split_char CHR '' '' (or_empty middle)))))
      else middle)"

text \<open>Lines 87-124. The token array is never null.\<close>

definition buildPersonFromTokens :: "string list \<Rightarrow> string option \<Rightarrow> owner option" where
  "buildPersonFromTokens tokens fallbackLastName =
     (if length tokens = 0 then None
      else if length tokens = 1 then None
      else
        let ov = surname_omitted tokens fallbackLastName;
            last = (if ov then fallbackLastName else at tokens 0);
            first = (if ov then at tokens 0 else or_null (at tokens 1));
            middle = clean_middle
              (if ov then or_null (at tokens 1)
               else if length tokens > 2 then Some (join '' '' (drop 2 tokens)) else None)
        in Some (Person (titleCase (or_empty first))
                  (if truthy middle then Some (titleCase (or_empty middle)) else None)
                  (titleCase (or_empty last))))"

text \<open>Lines 126-148. The loop runs over \<^verbatim>\<open>rem\<close> from index \<open>i\<close>; here it runs over the tokens
  that are left.\<close>

fun pushed :: "owner option \<Rightarrow> owner list" where
  "pushed None = []"
| "pushed (Some p) = [p]"

fun shared_last_loop :: "string \<Rightarrow> string list \<Rightarrow> owner list" where
  "shared_last_loop lastTok [] = []"
| "shared_last_loop lastTok [first] = pushed (buildPersonFromTokens [lastTok, first] None)"
| "shared_last_loop lastTok (first # possibleMiddle # rest) =
     (if possibleMiddle \<noteq> []
      then pushed (buildPersonFromTokens [lastTok, first, possibleMiddle] None)
             @ shared_last_loop lastTok rest
      else pushed (buildPersonFromTokens [lastTok, first] None)
             @ shared_last_loop lastTok (possibleMiddle # rest))"

definition splitMultiplePersonsWithSharedLast :: "string list \<Rightarrow> owner list" where
  "splitMultiplePersonsWithSharedLast tokens =
     (if length tokens < 4 then [] else shared_last_loop (hd tokens) (tl tokens))"

section \<open>The parser\<close>

text \<open>The variables that the callbacks of \<^verbatim>\<open>parseOwnersFromText\<close> update: the two result arrays,
  \<^verbatim>\<open>lastSurname\<close>, and \<^verbatim>\<open>localLastSurname\<close> of the segment at hand.\<close>

record pstate = parse_result +
  lastSurname :: "string option"
  localLastSurname :: "string option"

text \<open>Lines 201-208: the condition of the heuristic split, and its two persons when both are
  built.\<close>

definition blind_split_reached :: "owner option \<Rightarrow> string list \<Rightarrow> bool" where
  "blind_split_reached person tokens = (person = None \<and> 4 \<le> length tokens)"

definition blind_split :: "string list \<Rightarrow> (owner \<times> owner) option" where
  "blind_split tokens =
     (case buildPersonFromTokens (take 3 tokens) None of
        None \<Rightarrow> None
      | Some p1 \<Rightarrow>
          (case buildPersonFromTokens (drop 3 tokens) (at tokens 0) of
             None \<Rightarrow> None
           | Some p2 \<Rightarrow> Some (p1, p2)))"

text \<open>Lines 176-227: the callback of \<^verbatim>\<open>andParts.forEach\<close>, for the part \<open>part\<close> at index
  \<open>idx\<close>, where \<open>n\<close> is \<^verbatim>\<open>andParts.length\<close>.\<close>

definition process_part :: "nat \<Rightarrow> nat \<Rightarrow> string \<Rightarrow> pstate \<Rightarrow> js_error + pstate" where
  "process_part n idx part st =
     (let tokens = tokenizeNamePart part in
      if length tokens = 0 then Inr st
      else if n = 1 \<and> 4 \<le> length tokens
                \<and> 2 \<le> length (splitMultiplePersonsWithSharedLast tokens)
      then
        (case at tokens 0 of
           None \<Rightarrow> Inl TypeError
         | Some t \<Rightarrow>
             Inr (st\<lparr>owners := owners st @ splitMultiplePersonsWithSharedLast tokens,
                     lastSurname := Some (toUpperCase t)\<rparr>))
      else
        let st1 = (if idx = 0 then st\<lparr>localLastSurname := at tokens 0\<rparr> else st);
            person = buildPersonFromTokens tokens
              (if idx > 0
               then (if truthy (localLastSurname st1) then localLastSurname st1
                     else lastSurname st1)
               else None)
        in
          if blind_split_reached person tokens \<and> blind_split tokens \<noteq> None
          then
            (case blind_split tokens of
               None \<Rightarrow> Inr st1
             | Some (p1, p2) \<Rightarrow>
                 Inr (st1\<lparr>owners := owners st1 @ [p1, p2],
                          lastSurname := (if truthy (at tokens 0)
                                          then map_option toUpperCase (at tokens 0)
                                          else lastSurname st1)\<rparr>))
          else
            (case person of
               Some p \<Rightarrow>
                 Inr (st1\<lparr>owners := owners st1 @ [p],
                          lastSurname := (if truthy (last_name p)
                                          then map_option toUpperCase (last_name p)
                                          else lastSurname st1)\<rparr>)
             | None \<Rightarrow>
                 Inr (st1\<lparr>invalids := invalids st1 @
                        [\<lparr>raw = part, reason = ''ambiguous_or_incomplete_person_name''\<rparr>]\<rparr>)))"

fun forEach_parts :: "nat \<Rightarrow> nat \<Rightarrow> string list \<Rightarrow> pstate \<Rightarrow> js_error + pstate" where
  "forEach_parts n idx [] st = Inr st"
| "forEach_parts n idx (part # parts) st =
     (case process_part n idx part st of
        Inl e \<Rightarrow> Inl e
      | Inr st' \<Rightarrow> forEach_parts n (Suc idx) parts st')"

text \<open>Lines 154-157 and line 164: how the raw text and a segment are cleaned.\<close>

definition normalize_text :: "string \<Rightarrow> string" where
  "normalize_text rawText = trim (replace_ws_pairs (strip_star (cleanText rawText)))"

definition normalize_segment :: "string \<Rightarrow> string" where
  "normalize_segment segment = trim (strip_star (cleanText segment))"

text \<open>Lines 163-228, \<^verbatim>\<open>pushOwnerOrInvalid\<close>.\<close>

definition pushOwnerOrInvalid :: "string \<Rightarrow> pstate \<Rightarrow> js_error + pstate" where
  "pushOwnerOrInvalid segment st =
     (let seg = normalize_segment segment in
      if seg = [] then Inr st
      else if isCompanyName seg then Inr (st\<lparr>owners := owners st @ [Company (titleCase seg)]\<rparr>)
      else
        let andParts = filter (\<lambda>s. s \<noteq> []) (js_split True AND_SPLIT seg)
        in forEach_parts (length andParts) 0 andParts (st\<lparr>localLastSurname := None\<rparr>))"

fun forEach_segments :: "string list \<Rightarrow> pstate \<Rightarrow> js_error + pstate" where
  "forEach_segments [] st = Inr st"
| "forEach_segments (seg # segs) st =
     (case pushOwnerOrInvalid seg st of
        Inl e \<Rightarrow> Inl e
      | Inr st' \<Rightarrow> forEach_segments segs st')"

text \<open>Lines 151-161 and 230: the owners and invalid entries collected from a text that is not
  empty, before deduplication.\<close>

definition collectOwners :: "string \<Rightarrow> js_error + pstate" where
  "collectOwners rawText =
     forEach_segments
       (filter (\<lambda>s. s \<noteq> []) (js_split False COMMA_SPLIT (normalize_text rawText)))
       \<lparr>owners = [], invalids = [], lastSurname = None, localLastSurname = None\<rparr>"

text \<open>Lines 232-244: deduplication by normalized key, with the set \<^verbatim>\<open>seen\<close>; an owner whose
  middle name is empty or blank gets the middle name null.\<close>

fun nullify_middle :: "owner \<Rightarrow> owner" where
  "nullify_middle (Person f m l) =
     Person f (if \<not> truthy m \<or> trim (or_empty m) = [] then None else m) l"
| "nullify_middle (Company n) = Company n"

fun dedupe :: "string set \<Rightarrow> owner list \<Rightarrow> owner list" where
  "dedupe seen [] = []"
| "dedupe seen (x # xs) =
     (if normalizeOwnerKey x = [] \<or> normalizeOwnerKey x \<in> seen then dedupe seen xs
      else nullify_middle x # dedupe (insert (normalizeOwnerKey x) seen) xs)"

text \<open>Lines 150-247. The raw text is a string or null.\<close>

definition parseOwnersFromText :: "string option \<Rightarrow> js_error + parse_result" where
  "parseOwnersFromText rawText =
     (if \<not> truthy rawText then Inr \<lparr>owners = [], invalids = []\<rparr>
      else
        (case collectOwners (or_empty rawText) of
           Inl e \<Rightarrow> Inl e
         | Inr st \<Rightarrow> Inr \<lparr>owners = dedupe {} (owners st), invalids = invalids st\<rparr>))"

text \<open>Line 160, the segments \<^verbatim>\<open>commaSegments\<close> of a raw text, and line 173, the parts
  \<^verbatim>\<open>andParts\<close> of a cleaned segment, by their names.\<close>

definition commaSegments :: "string \<Rightarrow> string list" where
  "commaSegments rawText =
     filter (\<lambda>s. s \<noteq> []) (js_split False COMMA_SPLIT (normalize_text rawText))"

definition andParts :: "string \<Rightarrow> string list" where
  "andParts seg = filter (\<lambda>s. s \<noteq> []) (js_split True AND_SPLIT seg)"

section \<open>Notions of the specification\<close>

text \<open>Two strings are equal ignoring case when their canonical forms are equal, and \<open>w\<close> stands
  at the start of \<open>s\<close> ignoring case when it is equal ignoring case to the prefix of its
  length.\<close>

definition ci_equal :: "string \<Rightarrow> string \<Rightarrow> bool" where
  "ci_equal a b = (map to_upper a = map to_upper b)"

definition ci_prefix :: "string \<Rightarrow> string \<Rightarrow> bool" where
  "ci_prefix w s = (length w \<le> length s \<and> ci_equal w (take (length w) s))"

text \<open>Some position of a text, from the start to the end, has the property \<open>P\<close>.\<close>

fun any_pos :: "(rpos \<Rightarrow> bool) \<Rightarrow> char option \<Rightarrow> string \<Rightarrow> bool" where
  "any_pos P p [] = P (p, [])"
| "any_pos P p (x # xs) = (P (p, x # xs) \<or> any_pos P (Some x) xs)"

text \<open>A text contains \<open>w\<close> as a whole word, ignoring case: \<open>w\<close> stands at some position, no word
  character stands before it and none after it. A word starts at a position when no word
  character stands before it. The dotted forms of the pattern are matched when white space or
  a word character follows.\<close>

definition word_starts_at :: "string \<Rightarrow> rpos \<Rightarrow> bool" where
  "word_starts_at w pos = (\<not> word_before (fst pos) \<and> ci_prefix w (snd pos))"

definition whole_word_at :: "string \<Rightarrow> rpos \<Rightarrow> bool" where
  "whole_word_at w pos =
     (word_starts_at w pos \<and> \<not> word_after (drop (length w) (snd pos)))"

definition dotted_form_at :: "string \<Rightarrow> rpos \<Rightarrow> bool" where
  "dotted_form_at w pos =
     (word_starts_at w pos \<and>
      (case drop (length w) (snd pos) of [] \<Rightarrow> False | c # cs \<Rightarrow> is_word c \<or> is_ws c))"

definition contains_whole_word :: "string \<Rightarrow> string \<Rightarrow> bool" where
  "contains_whole_word w s = any_pos (whole_word_at w) None s"

definition contains_word_start :: "string \<Rightarrow> string \<Rightarrow> bool" where
  "contains_word_start w s = any_pos (word_starts_at w) None s"

definition contains_dotted_form :: "string \<Rightarrow> string \<Rightarrow> bool" where
  "contains_dotted_form w s = any_pos (dotted_form_at w) None s"

text \<open>The indicators of the specification, 4.2; those among them that are made of letters;
  and the two dotted forms that the pattern lists.\<close>

definition INDICATORS :: "string list" where
  "INDICATORS =
     [''inc'', ''llc'', ''ltd'', ''foundation'', ''alliance'', ''solutions'', ''corp'', ''co'',
      ''services'', ''trust'', ''tr'', ''associates'', ''partners'', ''lp'', ''llp'', ''bank'',
      ''n.a.'', ''na'', ''pllc'', ''company'', ''enterprises'', ''properties'', ''holdings'']"

definition LETTER_INDICATORS :: "string list" where
  "LETTER_INDICATORS =
     [''inc'', ''llc'', ''ltd'', ''foundation'', ''alliance'', ''solutions'', ''corp'', ''co'',
      ''services'', ''trust'', ''tr'', ''associates'', ''partners'', ''lp'', ''llp'', ''bank'',
      ''na'', ''pllc'', ''company'', ''enterprises'', ''properties'', ''holdings'']"

definition DOTTED_FORMS :: "string list" where
  "DOTTED_FORMS = [''l.l.c.'', ''n.a.'']"

text \<open>The classifier as the specification words it: the text contains one of the indicators
  as a whole word.\<close>

definition contains_indicator :: "string \<Rightarrow> bool" where
  "contains_indicator s = list_ex (\<lambda>w. contains_whole_word w s) INDICATORS"

text \<open>The suffixes of the specification, 4.4, a word that is one of them ignoring case, and
  the words of a text: its maximal runs of characters that are not white space.\<close>

definition SUFFIX_WORDS :: "string list" where
  "SUFFIX_WORDS =
     [''jr'', ''sr'', ''ii'', ''iii'', ''iv'', ''v'', ''vi'', ''vii'', ''viii'', ''ix'', ''x'',
      ''md'', ''phd'', ''esq'', ''esquire'']"

definition is_suffix_word :: "string \<Rightarrow> bool" where
  "is_suffix_word w = list_ex (\<lambda>s. ci_equal s w) SUFFIX_WORDS"

function ws_words :: "string \<Rightarrow> string list" where
  "ws_words [] = []"
| "ws_words (c # cs) =
     (if is_ws c then ws_words cs
      else (c # takeWhile (\<lambda>x. \<not> is_ws x) cs) # ws_words (dropWhile (\<lambda>x. \<not> is_ws x) cs))"
  by pat_completeness auto
termination
  by (relation "measure length") (auto simp: le_imp_less_Suc length_dropWhile_le)

text \<open>The middle name that a person of the result may have: absent, or a name that is not
  empty and has no suffix among its words.\<close>

definition middle_without_suffix :: "owner \<Rightarrow> bool" where
  "middle_without_suffix x =
     (case middle_name x of
        None \<Rightarrow> True
      | Some m \<Rightarrow> m \<noteq> [] \<and> \<not> list_ex is_suffix_word (ws_words m))"

text \<open>The chunks of the multi-person splitter, 4.5: two tokens while at least two remain,
  else a last chunk of one.\<close>

fun chunks_of_two :: "'a list \<Rightarrow> 'a list list" where
  "chunks_of_two [] = []"
| "chunks_of_two [x] = [[x]]"
| "chunks_of_two (x # y # zs) = [x, y] # chunks_of_two zs"

text \<open>The baseline interpretation of 4.4 as it is worded: the first token is the last name,
  the second the first name, and the tokens after them, joined, the middle name, each in
  title case.\<close>

definition baseline_person :: "string list \<Rightarrow> owner" where
  "baseline_person tokens =
     Person (titleCase (tokens ! 1))
       (if length tokens > 2 then Some (titleCase (join '' '' (drop 2 tokens))) else None)
       (titleCase (tokens ! 0))"

text \<open>Deduplication as 4.6 words it: the first occurrence of a key wins and the order of the
  owners that are kept is preserved.\<close>

function first_occurrences :: "('a \<Rightarrow> 'k) \<Rightarrow> 'a list \<Rightarrow> 'a list" where
  "first_occurrences key [] = []"
| "first_occurrences key (x # xs) =
     x # first_occurrences key (filter (\<lambda>y. key y \<noteq> key x) xs)"
  by pat_completeness auto
termination
  by (relation "measure (\<lambda>(key, xs). length xs)") (auto simp: le_imp_less_Suc)

text \<open>The position after a word that stands at a position. A keyword of the pattern stands
  at the start of a text and the end of the pattern matches after it: after a keyword that
  ends in a letter no word character follows, and after a dotted form white space or a word
  character follows. A company keyword is found at a position when no word character stands
  before it.\<close>

fun pos_after :: "string \<Rightarrow> rpos \<Rightarrow> rpos" where
  "pos_after w (p, s) = (if w = [] then p else Some (s ! (length w - 1)), drop (length w) s)"

definition breaks_after :: "string \<Rightarrow> string \<Rightarrow> bool" where
  "breaks_after w s = (ci_prefix w s \<and> \<not> word_after (drop (length w) s))"

definition joins_after :: "string \<Rightarrow> string \<Rightarrow> bool" where
  "joins_after w s = (ci_prefix w s \<and>
     (case drop (length w) s of [] \<Rightarrow> False | c # cs \<Rightarrow> is_word c \<or> is_ws c))"

definition keyword_at :: "string \<Rightarrow> bool" where
  "keyword_at s = ((\<exists>w\<in>set LETTER_INDICATORS. breaks_after w s)
     \<or> (\<exists>w\<in>set DOTTED_FORMS. joins_after w s))"

definition company_at :: "rpos \<Rightarrow> bool" where
  "company_at q = (\<not> word_before (fst q) \<and> keyword_at (snd q))"

text \<open>
  An occurrence of the string \<open>x\<close> in \<open>s\<close> as a whole word: no word character stands before
  it and none after it. A string is solid when it is not empty and made of letters only.
\<close>

definition left_ok :: "string \<Rightarrow> bool" where
  "left_ok u = (u = [] \<or> \<not> is_word (last u))"

definition framed :: "string \<Rightarrow> string \<Rightarrow> bool" where
  "framed x s = (\<exists>u v. s = u @ x @ v \<and> left_ok u \<and> \<not> word_after v)"

definition solid :: "string \<Rightarrow> bool" where
  "solid x = (x \<noteq> [] \<and> list_all is_letter x)"

text \<open>
  The invalid entry of a part. A part is unresolved when it has a token and no person is
  built from its tokens. The unresolved parts of a segment that is not a company, in their
  order, and the invalid entries that a raw text is expected to give: those of the
  unresolved parts of its segments, in their order.
\<close>

definition invalid_of :: "string \<Rightarrow> invalid_entry" where
  "invalid_of part = \<lparr>raw = part, reason = ''ambiguous_or_incomplete_person_name''\<rparr>"

definition unresolved :: "string \<Rightarrow> bool" where
  "unresolved part =
     (tokenizeNamePart part \<noteq> [] \<and> buildPersonFromTokens (tokenizeNamePart part) None = None)"

definition unresolved_parts :: "string \<Rightarrow> string list" where
  "unresolved_parts segment =
     (let seg = normalize_segment segment in
      if isCompanyName seg then [] else filter unresolved (andParts seg))"

definition expected_invalids :: "string \<Rightarrow> invalid_entry list" where
  "expected_invalids rawText =
     map invalid_of (concat (map unresolved_parts (commaSegments rawText)))"

section \<open>Invariants of the parser\<close>

text \<open>A blank string has white space only. A token of the tokenizer is not empty and has no
  white space. A good middle name is absent, or is not blank and has no suffix among its
  words. Every owner that the parser collects has a first name (or a company name) that is
  not blank, and a good middle name.\<close>

definition blank :: "string \<Rightarrow> bool" where
  "blank s = list_all is_ws s"

definition good_middle :: "string option \<Rightarrow> bool" where
  "good_middle m =
     (case m of None \<Rightarrow> True
      | Some x \<Rightarrow> \<not> blank x \<and> \<not> list_ex is_suffix_word (ws_words x))"

definition good_token :: "string \<Rightarrow> bool" where
  "good_token t = (t \<noteq> [] \<and> list_all (\<lambda>c. \<not> is_ws c) t)"

fun clean_owner :: "owner \<Rightarrow> bool" where
  "clean_owner (Person f m l) =
     (\<not> blank f \<and>
      (case m of
         None \<Rightarrow> True
       | Some x \<Rightarrow> \<not> blank x \<and> \<not> list_ex is_suffix_word (ws_words x)))"
| "clean_owner (Company n) = (\<not> blank n)"

section \<open>Evaluation\<close>

text \<open>The equation of the star calls itself on every position that a repetition reaches, and
  a literal and an alternation unfold into long patterns: the three are rewritten only where
  a concrete text is evaluated. The character functions are given on a character by its bits,
  so that the simplifier evaluates the parser on a concrete text without arithmetic.\<close>

declare rx_ends.simps(13) [simp del]

declare lit.simps [simp del]

declare alts.simps [simp del]

lemma is_ws_Char:
  "is_ws (Char b0 b1 b2 b3 b4 b5 b6 b7) =
     ((\<not> b7 \<and> \<not> b6 \<and> \<not> b5 \<and> \<not> b4 \<and> b3 \<and> ((\<not> b2 \<and> (b1 \<or> b0)) \<or> (b2 \<and> \<not> b1)))
      \<or> (\<not> b0 \<and> \<not> b1 \<and> \<not> b2 \<and> \<not> b3 \<and> \<not> b4 \<and> b5 \<and> \<not> b6))"
  by (cases b0; cases b1; cases b2; cases b3; cases b4; cases b5; cases b6; cases b7;
      simp add: is_ws_def)

lemma is_letter_Char:
  "is_letter (Char b0 b1 b2 b3 b4 b5 b6 b7) = (\<not> b7 \<and> b6 \<and> in_1_26 b0 b1 b2 b3 b4)"
  by (cases b0; cases b1; cases b2; cases b3; cases b4; cases b5; cases b6; cases b7;
      simp add: is_letter_def in_1_26_def)

lemma is_word_Char:
  "is_word (Char b0 b1 b2 b3 b4 b5 b6 b7) =
     (\<not> b7 \<and> ((b6 \<and> in_1_26 b0 b1 b2 b3 b4)
            \<or> (\<not> b6 \<and> b5 \<and> b4 \<and> (\<not> b3 \<or> (\<not> b2 \<and> \<not> b1)))
            \<or> (b6 \<and> \<not> b5 \<and> b4 \<and> b3 \<and> b2 \<and> b1 \<and> b0)))"
  by (cases b0; cases b1; cases b2; cases b3; cases b4; cases b5; cases b6; cases b7;
      simp add: is_word_def in_1_26_def)

lemma to_upper_Char:
  "to_upper (Char b0 b1 b2 b3 b4 b5 b6 b7) =
     Char b0 b1 b2 b3 b4
       (b5 \<and> \<not> (b6 \<and> ((\<not> b7 \<and> in_1_26 b0 b1 b2 b3 b4) \<or> (b7 \<and> \<not> (b0 \<and> b1 \<and> b2 \<and> b4)))))
       b6 b7"
  by (cases b0; cases b1; cases b2; cases b3; cases b4; cases b5; cases b6; cases b7;
      simp add: to_upper_def in_1_26_def char_of_def bit_0 bit_Suc)

lemma to_lower_Char:
  "to_lower (Char b0 b1 b2 b3 b4 b5 b6 b7) =
     Char b0 b1 b2 b3 b4
       (b5 \<or> (b6 \<and> ((\<not> b7 \<and> in_1_26 b0 b1 b2 b3 b4) \<or> (b7 \<and> \<not> (b0 \<and> b1 \<and> b2 \<and> b4)))))
       b6 b7"
  by (cases b0; cases b1; cases b2; cases b3; cases b4; cases b5; cases b6; cases b7;
      simp add: to_lower_def in_1_26_def char_of_def bit_0 bit_Suc)

lemmas char_evals =
  is_ws_Char is_letter_Char is_word_Char to_upper_Char to_lower_Char in_1_26_def
  toLowerCase_def toUpperCase_def chr_eq_def name_char_def

lemmas text_evals =
  trim_def strip_stars_def split_char_def cleanText_def Let_def
  truthy_def or_null_def or_empty_def at_def

lemmas regex_evals =
  rx_ends.simps(13) lit.simps alts.simps rx_test_def js_split_def COMPANY_KEYWORDS_def SUFFIXES_IGNORE_def
  COMMA_SPLIT_def AND_SPLIT_def isCompanyName_def

lemmas spec_evals =
  ci_equal_def ci_prefix_def word_starts_at_def whole_word_at_def dotted_form_at_def
  contains_whole_word_def contains_word_start_def contains_dotted_form_def INDICATORS_def
  LETTER_INDICATORS_def DOTTED_FORMS_def contains_indicator_def SUFFIX_WORDS_def
  is_suffix_word_def middle_without_suffix_def

lemmas parser_evals =
  char_evals text_evals regex_evals tokenizeNamePart_def surname_omitted_def clean_middle_def
  buildPersonFromTokens_def splitMultiplePersonsWithSharedLast_def blind_split_reached_def
  blind_split_def process_part_def normalize_text_def normalize_segment_def
  pushOwnerOrInvalid_def collectOwners_def parseOwnersFromText_def

section \<open>The example with a conjunction\<close>

text \<open>
  The claim C1 as it is written says that the text \<^verbatim>\<open>SMITH JOHN & MARY\<close> gives the two persons
  John Smith and Mary Smith and no invalid entry. The parser does not return that: the part
  \<^verbatim>\<open>MARY\<close> is a single token, and \<open>buildPersonFromTokens\<close> returns null for a single token
  before it looks at the fallback surname.
\<close>

theorem C1_two_persons_refuted:
  "parseOwnersFromText (Some ''SMITH JOHN & MARY'') \<noteq>
     Inr \<lparr>owners = [Person ''John'' None ''Smith'', Person ''Mary'' None ''Smith''],
          invalids = []\<rparr>"
  by (simp add: parser_evals)

text \<open>
  C1, amended: the text \<^verbatim>\<open>SMITH JOHN & MARY\<close> gives the one person John Smith and one invalid
  entry with the raw text \<^verbatim>\<open>MARY\<close> and the reason \<^verbatim>\<open>ambiguous_or_incomplete_person_name\<close>. The
  fallback surname is used for a part of two tokens: the text \<^verbatim>\<open>SMITH JOHN & MARY ANN\<close> gives
  John Smith and Mary Ann Smith, the second with the surname of the first part, and no invalid
  entry.
\<close>

theorem C1_conjunction_example:
  "parseOwnersFromText (Some ''SMITH JOHN & MARY'') =
     Inr \<lparr>owners = [Person ''John'' None ''Smith''],
          invalids = [\<lparr>raw = ''MARY'', reason = ''ambiguous_or_incomplete_person_name''\<rparr>]\<rparr>
   \<and> parseOwnersFromText (Some ''SMITH JOHN & MARY ANN'') =
     Inr \<lparr>owners = [Person ''John'' None ''Smith'', Person ''Mary'' (Some ''Ann'') ''Smith''],
          invalids = []\<rparr>"
  by (simp add: parser_evals)

section \<open>Basic facts\<close>

text \<open>Facts on the character classes, on the builder and on one step of the parser: the
  builder returns null exactly below two tokens, the loop of the splitter follows the chunks,
  no step raises, and a blank text is cleaned to the empty text.\<close>

lemma is_ws_not_word: "is_ws c \<Longrightarrow> \<not> is_word c"
  by (auto simp: is_ws_def is_word_def Let_def)

lemma is_letter_word: "is_letter c \<Longrightarrow> is_word c"
  by (auto simp: is_letter_def is_word_def Let_def)

lemma is_ws_to_lower [simp]: "is_ws (to_lower c) = is_ws c"
  by (auto simp: is_ws_def to_lower_def Let_def)

lemma is_ws_to_upper [simp]: "is_ws (to_upper c) = is_ws c"
  by (auto simp: is_ws_def to_upper_def Let_def)

lemma to_upper_to_lower [simp]: "to_upper (to_lower c) = to_upper c"
  by (auto simp: to_upper_def to_lower_def Let_def)

lemma to_upper_idem [simp]: "to_upper (to_upper c) = to_upper c"
  by (auto simp: to_upper_def Let_def)

lemma is_word_to_upper_eq: "to_upper c = to_upper x \<Longrightarrow> is_word c \<Longrightarrow> is_word x"
  apply (cases c; cases x) 
  apply (simp add: char_evals)
  apply blast
  done

lemma build_none_iff: "buildPersonFromTokens tokens fb = None \<longleftrightarrow> length tokens < 2"
  by (cases tokens) (auto simp: buildPersonFromTokens_def Let_def)

lemma build_some: "2 \<le> length tokens \<Longrightarrow> \<exists>p. buildPersonFromTokens tokens fb = Some p"
  using build_none_iff[of tokens fb] by (cases "buildPersonFromTokens tokens fb") auto

lemma not_blind: "\<not> blind_split_reached (buildPersonFromTokens tokens fb) tokens"
  by (auto simp: blind_split_reached_def build_none_iff)

lemma process_part_two:
  assumes "2 \<le> length (tokenizeNamePart part)"
  shows "\<exists>st'. process_part n idx part st = Inr st' \<and> invalids st' = invalids st"
proof -
  have ne: "tokenizeNamePart part \<noteq> []" using assms by auto
  show ?thesis
    using ne assms
    by (auto simp: process_part_def Let_def not_blind at_def build_none_iff split: option.splits)
qed


lemma or_empty_or_null [simp]: "or_empty (or_null v) = or_empty v"
  by (cases v) (auto simp: or_empty_def or_null_def truthy_def)

lemma not_suffix_Nil: "\<not> rx_test True SUFFIXES_IGNORE []"
  by (simp add: regex_evals char_evals)

lemma build_baseline:
  assumes "2 \<le> length tokens" and "\<not> surname_omitted tokens fb"
  shows "buildPersonFromTokens tokens fb =
     Some (Person (titleCase (tokens ! 1))
       (let m = join '' '' (filter (\<lambda>t. \<not> rx_test True SUFFIXES_IGNORE t)
                  (split_char CHR '' '' (join '' '' (drop 2 tokens))))
        in if m = [] then None else Some (titleCase m))
       (titleCase (tokens ! 0)))"
proof (cases "length tokens > 2")
  case True
  then have "tokens \<noteq> []" by auto
  then show ?thesis using assms True
    by (simp add: buildPersonFromTokens_def Let_def at_def clean_middle_def truthy_def
        or_null_def or_empty_def split_char_def not_suffix_Nil)
next
  case False
  then have "drop 2 tokens = []" using assms by simp
  then show ?thesis using assms False
    by (simp add: buildPersonFromTokens_def Let_def at_def clean_middle_def truthy_def
        or_null_def or_empty_def split_char_def not_suffix_Nil)
qed

lemma build_last_name:
  "buildPersonFromTokens (l # rest) None = Some p \<Longrightarrow> last_name p = Some (titleCase l)"
  by (auto simp: buildPersonFromTokens_def Let_def surname_omitted_def truthy_def at_def
      or_empty_def split: if_splits)

lemma map_Some_pushed: "x \<noteq> None \<Longrightarrow> map Some (pushed x) = [x]"
  by (cases x) auto

lemma shared_last_loop_chunks:
  "list_all (\<lambda>t. t \<noteq> []) rem \<Longrightarrow>
     map Some (shared_last_loop l rem) =
       map (\<lambda>ch. buildPersonFromTokens (l # ch) None) (chunks_of_two rem)"
  by (induction rem rule: chunks_of_two.induct)
     (simp_all add: map_Some_pushed build_none_iff)

lemma shared_last_loop_last:
  "list_all (\<lambda>p. last_name p = Some (titleCase l)) (shared_last_loop l rem)"
proof (induction l rem rule: shared_last_loop.induct)
  case (1 lastTok)
  then show ?case by simp
next
  case (2 lastTok first)
  then show ?case
    by (cases "buildPersonFromTokens [lastTok, first] None") (auto dest: build_last_name)
next
  case (3 lastTok first possibleMiddle rest)
  then show ?case
    by (cases "buildPersonFromTokens [lastTok, first] None";
        cases "buildPersonFromTokens [lastTok, first, possibleMiddle] None")
       (auto dest: build_last_name)
qed

lemma process_part_total: "\<exists>st'. process_part n idx part st = Inr st'"
  by (auto simp: process_part_def Let_def at_def split: option.splits)

lemma forEach_parts_total: "\<exists>st'. forEach_parts n idx parts st = Inr st'"
proof (induction parts arbitrary: idx st)
  case Nil
  then show ?case by simp
next
  case (Cons part parts)
  obtain st1 where "process_part n idx part st = Inr st1"
    using process_part_total by blast
  then show ?case using Cons[of "Suc idx" st1] by simp
qed

lemma pushOwnerOrInvalid_total: "\<exists>st'. pushOwnerOrInvalid seg st = Inr st'"
  by (simp add: pushOwnerOrInvalid_def Let_def forEach_parts_total)

lemma forEach_segments_total: "\<exists>st'. forEach_segments segs st = Inr st'"
proof (induction segs arbitrary: st)
  case Nil
  then show ?case by simp
next
  case (Cons seg segs)
  obtain st1 where "pushOwnerOrInvalid seg st = Inr st1"
    using pushOwnerOrInvalid_total by blast
  then show ?case using Cons[of st1] by simp
qed

lemma parse_total: "\<exists>r. parseOwnersFromText rawText = Inr r"
proof -
  obtain st where "collectOwners (or_empty rawText) = Inr st"
    unfolding collectOwners_def using forEach_segments_total by blast
  then show ?thesis by (simp add: parseOwnersFromText_def)
qed

lemma blank_replace_ws_runs:
  assumes "blank s" and "s \<noteq> []"
  shows "replace_ws_runs s = '' ''"
proof -
  obtain c cs where s: "s = c # cs" using assms(2) by (cases s) auto
  have c: "is_ws c" and d: "dropWhile is_ws cs = []"
    using assms(1) s by (auto simp: blank_def list_all_iff)
  show ?thesis unfolding s by (simp add: c d)
qed

lemma blank_cleanText: "blank s \<Longrightarrow> cleanText s = []"
proof (cases "s = []")
  case True
  then show ?thesis by (simp add: cleanText_def trim_def)
next
  case False
  assume "blank s"
  then have "replace_ws_runs s = '' ''" using False by (rule blank_replace_ws_runs)
  then show ?thesis by (simp add: cleanText_def trim_def is_ws_Char)
qed

lemma parse_blank:
  assumes "blank s"
  shows "parseOwnersFromText (Some s) = Inr \<lparr>owners = [], invalids = []\<rparr>"
proof -
  have "normalize_text s = []"
    using assms by (simp add: normalize_text_def blank_cleanText trim_def)
  then have "collectOwners s = Inr \<lparr>owners = [], invalids = [], lastSurname = None, localLastSurname = None\<rparr>"
    by (simp add: collectOwners_def js_split_def COMMA_SPLIT_def)
  then show ?thesis
    by (simp add: parseOwnersFromText_def or_empty_def)
qed

lemma process_part_no_token:
  "tokenizeNamePart part = [] \<Longrightarrow> process_part n idx part st = Inr st"
  by (simp add: process_part_def)

lemma process_part_unbuilt:
  assumes "tokenizeNamePart part \<noteq> []"
    and "buildPersonFromTokens (tokenizeNamePart part) fb = None"
  shows "\<exists>st'. process_part n idx part st = Inr st' \<and> owners st' = owners st \<and>
     invalids st' = invalids st @
       [\<lparr>raw = part, reason = ''ambiguous_or_incomplete_person_name''\<rparr>]"
proof -
  have len: "length (tokenizeNamePart part) < 2"
    using assms(2) by (simp add: build_none_iff)
  then have none: "\<And>f. buildPersonFromTokens (tokenizeNamePart part) f = None"
    by (simp add: build_none_iff)
  show ?thesis using assms(1) len
    by (auto simp: process_part_def Let_def none blind_split_reached_def)
qed

text \<open>
  The invalid entries do not depend on the surnames that the parser carries along: a part adds
  its entry exactly when it is unresolved, so the entries of a result are those of the
  unresolved parts of the segments of the text, in their order.
\<close>

lemma unresolved_iff: "unresolved part \<longleftrightarrow> length (tokenizeNamePart part) = 1"
  unfolding unresolved_def build_none_iff by (cases "tokenizeNamePart part") auto

lemma process_part_invalids:
  "\<exists>st'. process_part n idx part st = Inr st' \<and>
     invalids st' = invalids st @ map invalid_of (filter unresolved [part])"
proof (cases "tokenizeNamePart part = []")
  case True
  then show ?thesis by (simp add: process_part_no_token unresolved_def)
next
  case ne: False
  show ?thesis
  proof (cases "2 \<le> length (tokenizeNamePart part)")
    case True
    then have "\<not> unresolved part" by (simp add: unresolved_iff)
    then show ?thesis using process_part_two[OF True, of n idx st] by simp
  next
    case False
    then have none: "buildPersonFromTokens (tokenizeNamePart part) None = None"
      by (simp add: build_none_iff)
    then have "unresolved part" using ne by (simp add: unresolved_def)
    then show ?thesis
      using process_part_unbuilt[OF ne none, of n idx st] by (auto simp: invalid_of_def)
  qed
qed

lemma forEach_parts_invalids:
  "\<exists>st'. forEach_parts n idx parts st = Inr st' \<and>
     invalids st' = invalids st @ map invalid_of (filter unresolved parts)"
proof (induction parts arbitrary: idx st)
  case Nil
  then show ?case by simp
next
  case (Cons part parts)
  obtain st1 where p: "process_part n idx part st = Inr st1"
    and i: "invalids st1 = invalids st @ map invalid_of (filter unresolved [part])"
    using process_part_invalids by blast
  obtain st2 where q: "forEach_parts n (Suc idx) parts st1 = Inr st2"
    and j: "invalids st2 = invalids st1 @ map invalid_of (filter unresolved parts)"
    using Cons[of "Suc idx" st1] by blast
  have "forEach_parts n idx (part # parts) st = Inr st2" using p q by simp
  moreover have "invalids st2 = invalids st @ map invalid_of (filter unresolved (part # parts))"
    unfolding j i by simp
  ultimately show ?case by blast
qed

lemma andParts_Nil: "andParts [] = []"
  by (simp add: andParts_def regex_evals)

lemma pushOwnerOrInvalid_invalids:
  "\<exists>st'. pushOwnerOrInvalid segment st = Inr st' \<and>
     invalids st' = invalids st @ map invalid_of (unresolved_parts segment)"
proof (cases "normalize_segment segment = []")
  case True
  then show ?thesis
    by (simp add: pushOwnerOrInvalid_def unresolved_parts_def andParts_Nil)
next
  case ne: False
  show ?thesis
  proof (cases "isCompanyName (normalize_segment segment)")
    case True
    then show ?thesis using ne by (simp add: pushOwnerOrInvalid_def unresolved_parts_def)
  next
    case False
    let ?ps = "andParts (normalize_segment segment)"
    obtain st' where f: "forEach_parts (length ?ps) 0 ?ps (st\<lparr>localLastSurname := None\<rparr>) = Inr st'"
      and i: "invalids st' = invalids (st\<lparr>localLastSurname := None\<rparr>)
                @ map invalid_of (filter unresolved ?ps)"
      using forEach_parts_invalids by blast
    have "pushOwnerOrInvalid segment st = Inr st'"
      using ne False f by (simp add: pushOwnerOrInvalid_def Let_def andParts_def)
    moreover have "invalids st' = invalids st @ map invalid_of (unresolved_parts segment)"
      using i False by (simp add: unresolved_parts_def)
    ultimately show ?thesis by blast
  qed
qed

lemma forEach_segments_invalids:
  "\<exists>st'. forEach_segments segs st = Inr st' \<and>
     invalids st' = invalids st @ map invalid_of (concat (map unresolved_parts segs))"
proof (induction segs arbitrary: st)
  case Nil
  then show ?case by simp
next
  case (Cons seg segs)
  obtain st1 where p: "pushOwnerOrInvalid seg st = Inr st1"
    and i: "invalids st1 = invalids st @ map invalid_of (unresolved_parts seg)"
    using pushOwnerOrInvalid_invalids by blast
  obtain st2 where q: "forEach_segments segs st1 = Inr st2"
    and j: "invalids st2 = invalids st1 @ map invalid_of (concat (map unresolved_parts segs))"
    using Cons[of st1] by blast
  have "forEach_segments (seg # segs) st = Inr st2" using p q by simp
  moreover have "invalids st2 =
      invalids st @ map invalid_of (concat (map unresolved_parts (seg # segs)))"
    unfolding j i by simp
  ultimately show ?case by blast
qed

lemma commaSegments_Nil: "commaSegments [] = []"
  by (simp add: commaSegments_def normalize_text_def char_evals text_evals regex_evals)

lemma parse_invalids:
  "\<exists>r. parseOwnersFromText (Some rawText) = Inr r \<and> invalids r = expected_invalids rawText"
proof (cases "rawText = []")
  case True
  then show ?thesis
    by (simp add: parseOwnersFromText_def truthy_def expected_invalids_def commaSegments_Nil)
next
  case False
  obtain st where c: "collectOwners rawText = Inr st"
    and i: "invalids st = expected_invalids rawText"
    using forEach_segments_invalids[of "commaSegments rawText"
        "\<lparr>owners = [], invalids = [], lastSurname = None, localLastSurname = None\<rparr>"]
    by (auto simp: collectOwners_def commaSegments_def expected_invalids_def)
  show ?thesis using False c i
    by (simp add: parseOwnersFromText_def truthy_def or_empty_def)
qed

lemma parse_unresolved_surfaces:
  assumes "segment \<in> set (commaSegments rawText)"
    and "\<not> isCompanyName (normalize_segment segment)"
    and "part \<in> set (andParts (normalize_segment segment))"
    and "tokenizeNamePart part \<noteq> []"
    and "buildPersonFromTokens (tokenizeNamePart part) fb = None"
  shows "\<exists>r. parseOwnersFromText (Some rawText) = Inr r \<and>
     \<lparr>raw = part, reason = ''ambiguous_or_incomplete_person_name''\<rparr> \<in> set (invalids r)"
proof -
  have "unresolved part"
    using assms(4,5) by (simp add: unresolved_def build_none_iff)
  then have "part \<in> set (unresolved_parts segment)"
    using assms(2,3) by (simp add: unresolved_parts_def)
  then have "invalid_of part \<in> set (expected_invalids rawText)"
    using assms(1) by (auto simp: expected_invalids_def)
  then show ?thesis using parse_invalids[of rawText] by (auto simp: invalid_of_def)
qed

lemma parse_invalid_one_token:
  assumes "parseOwnersFromText rawText = Inr r" and "e \<in> set (invalids r)"
  shows "length (tokenizeNamePart (raw e)) = 1
     \<and> reason e = ''ambiguous_or_incomplete_person_name''"
proof (cases rawText)
  case None
  then show ?thesis using assms by (auto simp: parseOwnersFromText_def truthy_def)
next
  case (Some s)
  obtain r' where "parseOwnersFromText (Some s) = Inr r'"
    and "invalids r' = expected_invalids s"
    using parse_invalids by blast
  then have "e \<in> set (expected_invalids s)" using assms Some by simp
  then obtain p where "e = invalid_of p" and "unresolved p"
    by (auto simp: expected_invalids_def unresolved_parts_def Let_def split: if_splits)
  then show ?thesis by (simp add: invalid_of_def unresolved_iff)
qed

lemma build_person:
  "2 \<le> length tokens \<Longrightarrow> \<exists>f m l. buildPersonFromTokens tokens fb = Some (Person f m l)"
  by (cases tokens) (auto simp: buildPersonFromTokens_def Let_def)

section \<open>Two tokens are always built\<close>

text \<open>
  C2: for every token list with at least two tokens \<open>buildPersonFromTokens\<close> returns a person,
  whatever the fallback surname; so the condition of the heuristic split of lines 201-214
  (no person was built and there are at least four tokens) never holds, and a part with at
  least two tokens adds no invalid entry: every invalid entry of a result of the parser
  carries a part with exactly one token.
\<close>

theorem C2_two_tokens_always_built:
  "(2 \<le> length tokens \<longrightarrow>
      (\<exists>f m l. buildPersonFromTokens tokens fallbackLastName = Some (Person f m l)))
   \<and> \<not> blind_split_reached (buildPersonFromTokens tokens fallbackLastName) tokens
   \<and> (2 \<le> length (tokenizeNamePart part) \<longrightarrow>
        (\<exists>st'. process_part n idx part st = Inr st' \<and> invalids st' = invalids st))
   \<and> (parseOwnersFromText rawText = Inr r \<and> e \<in> set (invalids r) \<longrightarrow>
        length (tokenizeNamePart (raw e)) = 1)"
  using build_person [of tokens fallbackLastName] not_blind [of tokens fallbackLastName]
    process_part_two [of part n idx st] parse_invalid_one_token [of rawText r e]
  by blast

theorem C2_two_tokens_witness:
  "2 \<le> length [''DOE'', ''JANE'']
   \<and> (\<exists>f m l. buildPersonFromTokens [''DOE'', ''JANE''] (Some ''ROE'') = Some (Person f m l))
   \<and> 2 \<le> length (tokenizeNamePart ''DOE JANE'')
   \<and> (\<exists>st'. process_part 2 1 ''DOE JANE''
          \<lparr>owners = [], invalids = [], lastSurname = Some ''ROE'', localLastSurname = None\<rparr>
            = Inr st' \<and> invalids st' = [])
   \<and> parseOwnersFromText (Some ''SMITH JOHN & MARY'') =
        Inr \<lparr>owners = [Person ''John'' None ''Smith''],
             invalids = [\<lparr>raw = ''MARY'', reason = ''ambiguous_or_incomplete_person_name''\<rparr>]\<rparr>
   \<and> length (tokenizeNamePart ''MARY'') = 1"
proof -
  let ?e = "\<lparr>raw = ''MARY'', reason = ''ambiguous_or_incomplete_person_name''\<rparr>"
  let ?r = "\<lparr>owners = [Person ''John'' None ''Smith''], invalids = [?e]\<rparr>"
  have h1: "2 \<le> length [''DOE'', ''JANE'']" by simp
  have h2: "2 \<le> length (tokenizeNamePart ''DOE JANE'')"
    by (simp add: char_evals text_evals tokenizeNamePart_def)
  have h3: "parseOwnersFromText (Some ''SMITH JOHN & MARY'') = Inr ?r"
    by (simp add: parser_evals)
  have h4: "?e \<in> set (invalids ?r)" by simp
  have h5: "raw ?e = ''MARY''" by simp
  show ?thesis
    using h1 h2 h3 h4
      C2_two_tokens_always_built [of "[''DOE'', ''JANE'']" "Some ''ROE''" "''DOE JANE''" 2 1
        "\<lparr>owners = [], invalids = [], lastSurname = Some ''ROE'', localLastSurname = None\<rparr>"
        "Some ''SMITH JOHN & MARY''" ?r ?e]
    unfolding h5 by simp
qed

section \<open>The multi-person splitter\<close>

text \<open>
  C5: \<open>splitMultiplePersonsWithSharedLast\<close> returns no person for fewer than four tokens. For
  four or more tokens, none of them empty, it takes the first token as the shared last name,
  consumes the others in chunks of two while two remain and a last chunk of one, and returns
  for every chunk, in order, the person built from the last name and the chunk; every person
  has that last name. The text \<^verbatim>\<open>SMITH JOHN ROBERT ANN MARIE\<close> gives John Robert Smith and Ann
  Marie Smith.
\<close>

theorem C5_shared_surname_chunks:
  "(length tokens < 4 \<longrightarrow> splitMultiplePersonsWithSharedLast tokens = [])
   \<and> (4 \<le> length tokens \<and> list_all (\<lambda>t. t \<noteq> []) tokens \<longrightarrow>
        map Some (splitMultiplePersonsWithSharedLast tokens) =
          map (\<lambda>chunk. buildPersonFromTokens (hd tokens # chunk) None)
            (chunks_of_two (tl tokens))
        \<and> list_all (\<lambda>p. last_name p = Some (titleCase (hd tokens)))
            (splitMultiplePersonsWithSharedLast tokens))
   \<and> parseOwnersFromText (Some ''SMITH JOHN ROBERT ANN MARIE'') =
        Inr \<lparr>owners = [Person ''John'' (Some ''Robert'') ''Smith'',
                       Person ''Ann'' (Some ''Marie'') ''Smith''],
             invalids = []\<rparr>"
proof -
  have short: "length tokens < 4 \<longrightarrow> splitMultiplePersonsWithSharedLast tokens = []"
    by (simp add: splitMultiplePersonsWithSharedLast_def)
  have long: "4 \<le> length tokens \<and> list_all (\<lambda>t. t \<noteq> []) tokens \<longrightarrow>
        map Some (splitMultiplePersonsWithSharedLast tokens) =
          map (\<lambda>chunk. buildPersonFromTokens (hd tokens # chunk) None)
            (chunks_of_two (tl tokens))
        \<and> list_all (\<lambda>p. last_name p = Some (titleCase (hd tokens)))
            (splitMultiplePersonsWithSharedLast tokens)"
  proof (intro impI, elim conjE)
    assume len: "4 \<le> length tokens" and ne: "list_all (\<lambda>t. t \<noteq> []) tokens"
    have "list_all (\<lambda>t. t \<noteq> []) (tl tokens)"
      using ne by (cases tokens) auto
    then show "map Some (splitMultiplePersonsWithSharedLast tokens) =
          map (\<lambda>chunk. buildPersonFromTokens (hd tokens # chunk) None)
            (chunks_of_two (tl tokens))
        \<and> list_all (\<lambda>p. last_name p = Some (titleCase (hd tokens)))
            (splitMultiplePersonsWithSharedLast tokens)"
      using len
      by (simp add: splitMultiplePersonsWithSharedLast_def shared_last_loop_chunks
          shared_last_loop_last)
  qed
  have example: "parseOwnersFromText (Some ''SMITH JOHN ROBERT ANN MARIE'') =
        Inr \<lparr>owners = [Person ''John'' (Some ''Robert'') ''Smith'',
                       Person ''Ann'' (Some ''Marie'') ''Smith''],
             invalids = []\<rparr>"
    by (simp add: parser_evals)
  show ?thesis using short long example by blast
qed

theorem C5_shared_surname_witness:
  "length [''SMITH'', ''JOHN''] < 4
   \<and> splitMultiplePersonsWithSharedLast [''SMITH'', ''JOHN''] = []
   \<and> 4 \<le> length [''SMITH'', ''JOHN'', ''ROBERT'', ''ANN'']
   \<and> list_all (\<lambda>t. t \<noteq> []) [''SMITH'', ''JOHN'', ''ROBERT'', ''ANN'']
   \<and> map Some (splitMultiplePersonsWithSharedLast [''SMITH'', ''JOHN'', ''ROBERT'', ''ANN'']) =
       [buildPersonFromTokens [''SMITH'', ''JOHN'', ''ROBERT''] None,
        buildPersonFromTokens [''SMITH'', ''ANN''] None]"
proof -
  have h1: "length [''SMITH'', ''JOHN''] < 4" by simp
  have h2: "4 \<le> length [''SMITH'', ''JOHN'', ''ROBERT'', ''ANN'']
    \<and> list_all (\<lambda>t. t \<noteq> []) [''SMITH'', ''JOHN'', ''ROBERT'', ''ANN'']" by simp
  show ?thesis
    using h1 h2 C5_shared_surname_chunks [of "[''SMITH'', ''JOHN'']"]
      C5_shared_surname_chunks [of "[''SMITH'', ''JOHN'', ''ROBERT'', ''ANN'']"]
    by simp
qed

section \<open>The baseline interpretation\<close>

text \<open>
  The claim C6 as it is written says that, when the surname is not taken from the fallback,
  the tokens after the second, joined, make the middle name. The parser removes the ignored
  suffixes from them first: for the tokens \<^verbatim>\<open>SMITH\<close>, \<^verbatim>\<open>JOHN\<close>, \<^verbatim>\<open>JR\<close> the person has no middle
  name, where the baseline interpretation gives the middle name \<^verbatim>\<open>Jr\<close>.
\<close>

theorem C6_baseline_refuted:
  "\<not> surname_omitted [''SMITH'', ''JOHN'', ''JR''] None
   \<and> buildPersonFromTokens [''SMITH'', ''JOHN'', ''JR''] None
       = Some (Person ''John'' None ''Smith'')
   \<and> baseline_person [''SMITH'', ''JOHN'', ''JR''] = Person ''John'' (Some ''Jr'') ''Smith''"
  by (simp add: parser_evals baseline_person_def)

text \<open>
  C6, amended: \<open>buildPersonFromTokens\<close> returns null for no token and for one token. For two
  or more tokens, when the surname is not taken from the fallback, the first token is the last
  name and the second the first name, each in title case; the tokens after them are joined,
  the pieces between spaces that are ignored suffixes are removed, and what is left, in title
  case, is the middle name, which is absent when nothing is left. The text \<^verbatim>\<open>SMITH JOHN\<close>
  gives the one person John Smith with no middle name.
\<close>

theorem C6_baseline_with_suffixes_removed:
  "buildPersonFromTokens [] fallbackLastName = None
   \<and> buildPersonFromTokens [t] fallbackLastName = None
   \<and> (2 \<le> length tokens \<and> \<not> surname_omitted tokens fallbackLastName \<longrightarrow>
        buildPersonFromTokens tokens fallbackLastName =
          Some (Person (titleCase (tokens ! 1))
            (let m = join '' '' (filter (\<lambda>t. \<not> rx_test True SUFFIXES_IGNORE t)
                       (split_char CHR '' '' (join '' '' (drop 2 tokens))))
             in if m = [] then None else Some (titleCase m))
            (titleCase (tokens ! 0))))
   \<and> parseOwnersFromText (Some ''SMITH JOHN'') =
        Inr \<lparr>owners = [Person ''John'' None ''Smith''], invalids = []\<rparr>"
proof -
  have none: "buildPersonFromTokens [] fallbackLastName = None
      \<and> buildPersonFromTokens [t] fallbackLastName = None"
    by (simp add: build_none_iff)
  have example: "parseOwnersFromText (Some ''SMITH JOHN'') =
        Inr \<lparr>owners = [Person ''John'' None ''Smith''], invalids = []\<rparr>"
    by (simp add: parser_evals)
  show ?thesis
    using none example build_baseline [of tokens fallbackLastName] by blast
qed

theorem C6_baseline_witness:
  "2 \<le> length [''SMITH'', ''JOHN'', ''PAUL'', ''JR'']
   \<and> \<not> surname_omitted [''SMITH'', ''JOHN'', ''PAUL'', ''JR''] (Some ''DOE'')
   \<and> buildPersonFromTokens [''SMITH'', ''JOHN'', ''PAUL'', ''JR''] (Some ''DOE'')
       = Some (Person ''John'' (Some ''Paul'') ''Smith'')"
proof -
  have h: "2 \<le> length [''SMITH'', ''JOHN'', ''PAUL'', ''JR'']
    \<and> \<not> surname_omitted [''SMITH'', ''JOHN'', ''PAUL'', ''JR''] (Some ''DOE'')"
    by (simp add: surname_omitted_def)
  have m: "(let m = join '' '' (filter (\<lambda>t. \<not> rx_test True SUFFIXES_IGNORE t)
                (split_char CHR '' '' (join '' '' (drop 2 [''SMITH'', ''JOHN'', ''PAUL'', ''JR'']))))
            in if m = [] then None else Some (titleCase m)) = Some ''Paul''"
    by (simp add: char_evals text_evals regex_evals)
  have t: "titleCase ''JOHN'' = ''John''" "titleCase ''SMITH'' = ''Smith''"
    by (simp_all add: char_evals)
  show ?thesis
    using h m t
      C6_baseline_with_suffixes_removed [of "Some ''DOE''" "[]"
        "[''SMITH'', ''JOHN'', ''PAUL'', ''JR'']"]
    by simp
qed

section \<open>The parser always returns\<close>

text \<open>
  C9: \<open>parseOwnersFromText\<close> returns a result for every input and never raises: the one method
  call on a value that could be undefined, \<^verbatim>\<open>tokens[0].toUpperCase()\<close> of line 185, is reached
  with four tokens or more. For null, for the empty text and for a text of white space only
  the result has no owner and no invalid entry.
\<close>

theorem C9_parse_total:
  "(\<exists>r. parseOwnersFromText rawText = Inr r)
   \<and> parseOwnersFromText None = Inr \<lparr>owners = [], invalids = []\<rparr>
   \<and> parseOwnersFromText (Some []) = Inr \<lparr>owners = [], invalids = []\<rparr>
   \<and> (blank s \<longrightarrow> parseOwnersFromText (Some s) = Inr \<lparr>owners = [], invalids = []\<rparr>)"
  using parse_total [of rawText] parse_blank [of s]
  by (simp add: parseOwnersFromText_def truthy_def)

theorem C9_parse_total_witness:
  "blank [CHR '' '', CHR 0x09, CHR 0xA0, CHR '' '']
   \<and> parseOwnersFromText (Some [CHR '' '', CHR 0x09, CHR 0xA0, CHR '' ''])
       = Inr \<lparr>owners = [], invalids = []\<rparr>
   \<and> (\<exists>r. parseOwnersFromText (Some ''12 & 7, ??'') = Inr r)"
proof -
  have h: "blank [CHR '' '', CHR 0x09, CHR 0xA0, CHR '' '']"
    by (simp add: blank_def is_ws_Char)
  show ?thesis
    using h C9_parse_total [of "Some ''12 & 7, ??''" "[CHR '' '', CHR 0x09, CHR 0xA0, CHR '' '']"]
    by simp
qed

section \<open>Parts that cannot be built\<close>

text \<open>
  The claim C10 as it is written says that every fragment that is not empty, is not a company
  and cannot be built into a person gives an invalid entry. A part without any token, such as
  \<^verbatim>\<open>123\<close>, is passed over by line 178 and leaves no entry.
\<close>

theorem C10_silent_drop:
  "normalize_segment ''123'' = ''123''
   \<and> \<not> isCompanyName ''123''
   \<and> buildPersonFromTokens (tokenizeNamePart ''123'') None = None
   \<and> parseOwnersFromText (Some ''123'') = Inr \<lparr>owners = [], invalids = []\<rparr>"
  by (simp add: parser_evals)

text \<open>
  C10, amended: every part that has at least one token and cannot be built into a person
  surfaces in the result of the parser as an invalid entry with the text of the part and the
  reason \<^verbatim>\<open>ambiguous_or_incomplete_person_name\<close>, and adds no owner; a part without any token
  is passed over. The invalid entries of the result are exactly those of the unresolved parts
  of the segments that are no companies, in their order. The text \<^verbatim>\<open>SMITH\<close> gives no owner
  and one such entry.
\<close>

theorem C10_unbuilt_part_is_invalid:
  "(\<exists>r. parseOwnersFromText (Some rawText) = Inr r \<and> invalids r = expected_invalids rawText)
   \<and> (segment \<in> set (commaSegments rawText) \<and>
      \<not> isCompanyName (normalize_segment segment) \<and>
      part \<in> set (andParts (normalize_segment segment)) \<and>
      tokenizeNamePart part \<noteq> [] \<and>
      buildPersonFromTokens (tokenizeNamePart part) fallbackLastName = None \<longrightarrow>
        (\<exists>r. parseOwnersFromText (Some rawText) = Inr r \<and>
           \<lparr>raw = part, reason = ''ambiguous_or_incomplete_person_name''\<rparr> \<in> set (invalids r)))
   \<and> (tokenizeNamePart part \<noteq> [] \<and>
      buildPersonFromTokens (tokenizeNamePart part) fallbackLastName = None \<longrightarrow>
        (\<exists>st'. process_part n idx part st = Inr st' \<and> owners st' = owners st \<and>
           invalids st' = invalids st @
             [\<lparr>raw = part, reason = ''ambiguous_or_incomplete_person_name''\<rparr>]))
   \<and> (tokenizeNamePart part = [] \<longrightarrow> process_part n idx part st = Inr st)
   \<and> parseOwnersFromText (Some ''SMITH'') =
        Inr \<lparr>owners = [],
             invalids = [\<lparr>raw = ''SMITH'', reason = ''ambiguous_or_incomplete_person_name''\<rparr>]\<rparr>"
proof -
  have example: "parseOwnersFromText (Some ''SMITH'') =
        Inr \<lparr>owners = [],
             invalids = [\<lparr>raw = ''SMITH'', reason = ''ambiguous_or_incomplete_person_name''\<rparr>]\<rparr>"
    by (simp add: parser_evals)
  show ?thesis
    using example process_part_unbuilt [of part fallbackLastName n idx st]
      process_part_no_token [of part n idx st] parse_invalids [of rawText]
      parse_unresolved_surfaces [of segment rawText part fallbackLastName]
    by blast
qed

theorem C10_unbuilt_part_witness:
  "''MARY'' \<in> set (commaSegments ''MARY, SMITH JOHN'')
   \<and> \<not> isCompanyName (normalize_segment ''MARY'')
   \<and> ''MARY'' \<in> set (andParts (normalize_segment ''MARY''))
   \<and> tokenizeNamePart ''MARY'' \<noteq> []
   \<and> buildPersonFromTokens (tokenizeNamePart ''MARY'') (Some ''SMITH'') = None
   \<and> expected_invalids ''MARY, SMITH JOHN'' =
        [\<lparr>raw = ''MARY'', reason = ''ambiguous_or_incomplete_person_name''\<rparr>]
   \<and> (\<exists>r. parseOwnersFromText (Some ''MARY, SMITH JOHN'') = Inr r \<and>
        invalids r = [\<lparr>raw = ''MARY'', reason = ''ambiguous_or_incomplete_person_name''\<rparr>])
   \<and> (\<exists>st'. process_part 2 1 ''MARY''
         \<lparr>owners = [Person ''John'' None ''Smith''], invalids = [],
          lastSurname = Some ''SMITH'', localLastSurname = Some ''SMITH''\<rparr> = Inr st'
        \<and> owners st' = [Person ''John'' None ''Smith'']
        \<and> invalids st' = [\<lparr>raw = ''MARY'', reason = ''ambiguous_or_incomplete_person_name''\<rparr>])
   \<and> tokenizeNamePart ''123'' = []
   \<and> process_part 1 0 ''123''
        \<lparr>owners = [], invalids = [], lastSurname = None, localLastSurname = None\<rparr>
       = Inr \<lparr>owners = [], invalids = [], lastSurname = None, localLastSurname = None\<rparr>"
proof -
  have h1: "tokenizeNamePart ''MARY'' = [''MARY'']"
    by (simp add: char_evals text_evals tokenizeNamePart_def)
  have h2: "buildPersonFromTokens [''MARY''] (Some ''SMITH'') = None"
    by (simp add: build_none_iff)
  have h3: "tokenizeNamePart ''123'' = []"
    by (simp add: char_evals text_evals tokenizeNamePart_def)
  have n: "normalize_segment ''MARY'' = ''MARY''"
    by (simp add: char_evals text_evals normalize_segment_def)
  have h4: "commaSegments ''MARY, SMITH JOHN'' = [''MARY'', ''SMITH JOHN'']"
    by (simp add: commaSegments_def normalize_text_def char_evals text_evals regex_evals)
  have h5: "\<not> isCompanyName ''MARY''"
    by (simp add: char_evals regex_evals)
  have h6: "andParts ''MARY'' = [''MARY'']"
    by (simp add: andParts_def char_evals regex_evals)
  have n2: "normalize_segment ''SMITH JOHN'' = ''SMITH JOHN''"
    by (simp add: char_evals text_evals normalize_segment_def)
  have h7: "\<not> isCompanyName ''SMITH JOHN''"
    by (simp add: char_evals regex_evals)
  have h8: "andParts ''SMITH JOHN'' = [''SMITH JOHN'']"
    by (simp add: andParts_def char_evals regex_evals)
  have h9: "tokenizeNamePart ''SMITH JOHN'' = [''SMITH'', ''JOHN'']"
    by (simp add: char_evals text_evals tokenizeNamePart_def)
  have h10: "expected_invalids ''MARY, SMITH JOHN'' =
        [\<lparr>raw = ''MARY'', reason = ''ambiguous_or_incomplete_person_name''\<rparr>]"
    unfolding expected_invalids_def h4
    by (simp add: unresolved_parts_def n n2 h5 h6 h7 h8 unresolved_iff h1 h9 invalid_of_def)
  show ?thesis
    using h1 h2 h3 h4 h5 h6 h10
      C10_unbuilt_part_is_invalid [of "''MARY, SMITH JOHN''" "''MARY''" "''MARY''"
        "Some ''SMITH''" 2 1
        "\<lparr>owners = [Person ''John'' None ''Smith''], invalids = [],
          lastSurname = Some ''SMITH'', localLastSurname = Some ''SMITH''\<rparr>"]
      C10_unbuilt_part_is_invalid [of "''123''" "''123''" "''123''" None 1 0
        "\<lparr>owners = [], invalids = [], lastSurname = None, localLastSurname = None\<rparr>"]
    unfolding n by simp
qed

section \<open>A text without a comma that is a company\<close>

text \<open>A match ends at a suffix of the text it starts in, so the comma pattern matches nowhere
  in a text without a comma and the split returns the text as its one piece. Cleaning adds
  no character but the space, keeps every character that is not white space, and title case
  keeps white space where it is; so the key of a company with a name that is not blank is
  not empty.\<close>

lemma rx_ends_Star_cases:
  assumes "q \<in> set (rx_ends ic (Star a) pos)"
  shows "q = pos \<or> (\<exists>m \<in> set (rx_ends ic a pos).
     length (snd m) < length (snd pos) \<and> q \<in> set (rx_ends ic (Star a) m))"
proof -
  have "q \<in> set (concat (map (\<lambda>q. if length (snd q) < length (snd pos)
         then rx_ends ic (Star a) q else []) (rx_ends ic a pos)) @ [pos])"
    using assms by (subst (asm) rx_ends.simps(13)) simp
  then show ?thesis
    by (auto split: if_splits)
qed

lemma rx_ends_suffix:
  "q \<in> set (rx_ends ic r pos) \<Longrightarrow> suffix (snd q) (snd pos)"
proof (induction ic r pos arbitrary: q rule: rx_ends.induct)
  case (10 ic a b pos)
  then obtain m where m: "m \<in> set (rx_ends ic a pos)" and q: "q \<in> set (rx_ends ic b m)"
    by auto
  from "10.IH"(1)[OF m] "10.IH"(2)[OF m q] show ?case
    using suffix_order.trans by blast
next
  case (13 ic a pos)
  from rx_ends_Star_cases[OF "13.prems"] show ?case
  proof
    assume "q = pos"
    then show ?thesis by simp
  next
    assume "\<exists>m \<in> set (rx_ends ic a pos).
      length (snd m) < length (snd pos) \<and> q \<in> set (rx_ends ic (Star a) m)"
    then obtain m where m: "m \<in> set (rx_ends ic a pos)"
      and lt: "length (snd m) < length (snd pos)" and q: "q \<in> set (rx_ends ic (Star a) m)"
      by blast
    from "13.IH"(1)[OF m] "13.IH"(2)[OF m lt q] show ?thesis
      using suffix_order.trans by blast
  qed
qed (auto split: if_splits simp: suffix_ConsI)

lemma comma_needed:
  assumes "rx_ends False COMMA_SPLIT (p, s) \<noteq> []"
  shows "CHR '','' \<in> set s"
proof -
  from assms obtain m where m: "m \<in> set (rx_ends False (Star Ws) (p, s))"
    and c: "rx_ends False (Seq (Chr CHR '','') (Star Ws)) m \<noteq> []"
    by (auto simp: COMMA_SPLIT_def)
  from c obtain xs where "snd m = CHR '','' # xs"
    by (cases m; cases "snd m") (auto simp: chr_eq_def split: if_splits)
  moreover have "suffix (snd m) s" using rx_ends_suffix[OF m] by simp
  ultimately show ?thesis by (auto simp: suffix_def)
qed

lemma js_split_loop_no_comma:
  "CHR '','' \<notin> set s \<Longrightarrow> js_split_loop False COMMA_SPLIT acc p s = [acc @ s]"
proof (induction s arbitrary: acc p)
  case Nil
  then show ?case by simp
next
  case (Cons x xs)
  have "rx_ends False COMMA_SPLIT (p, x # xs) = []"
    using comma_needed[of p "x # xs"] Cons.prems by blast
  then show ?case using Cons by simp
qed

lemma js_split_no_comma:
  "CHR '','' \<notin> set s \<Longrightarrow> s \<noteq> [] \<Longrightarrow> js_split False COMMA_SPLIT s = [s]"
  by (simp add: js_split_def js_split_loop_no_comma)

lemma set_replace_ws_runs: "set (replace_ws_runs s) \<subseteq> insert CHR '' '' (set s)"
proof (induction s rule: replace_ws_runs.induct)
  case 1
  then show ?case by simp
next
  case (2 c cs)
  then show ?case using set_dropWhileD[of _ is_ws cs] by (auto split: if_splits)
qed

lemma set_replace_ws_pairs: "set (replace_ws_pairs s) \<subseteq> insert CHR '' '' (set s)"
proof (induction s rule: replace_ws_pairs.induct)
  case (3 c d cs)
  then show ?case using set_dropWhileD[of _ is_ws cs] by (auto split: if_splits)
qed auto

lemma set_trim: "set (trim s) \<subseteq> set s"
  by (auto simp: trim_def dest!: set_dropWhileD)

lemma set_strip_star: "set (strip_star s) \<subseteq> set s"
  by (cases s) auto

lemma set_cleanText: "set (cleanText s) \<subseteq> insert CHR '' '' (set s)"
  using set_trim[of "replace_ws_runs (replace_ws_runs s)"]
    set_replace_ws_runs[of "replace_ws_runs s"] set_replace_ws_runs[of s]
  unfolding cleanText_def by blast

lemma set_normalize_text: "set (normalize_text s) \<subseteq> insert CHR '' '' (set s)"
  using set_trim[of "replace_ws_pairs (strip_star (cleanText s))"]
    set_replace_ws_pairs[of "strip_star (cleanText s)"] set_strip_star[of "cleanText s"]
    set_cleanText[of s]
  unfolding normalize_text_def by blast

lemma blank_Nil [simp]: "blank []" by (simp add: blank_def)

lemma blank_iff: "blank s \<longleftrightarrow> (\<forall>c\<in>set s. is_ws c)"
  by (simp add: blank_def list_all_iff)

lemma trim_not_blank: "trim s \<noteq> [] \<Longrightarrow> \<not> blank (trim s)"
proof -
  assume ne: "trim s \<noteq> []"
  let ?r = "dropWhile is_ws (rev (dropWhile is_ws s))"
  have r: "?r \<noteq> []" using ne by (simp add: trim_def)
  then have "\<not> is_ws (hd ?r)" by (rule hd_dropWhile)
  moreover have "hd ?r \<in> set (trim s)" using r by (simp add: trim_def)
  ultimately show ?thesis by (auto simp: blank_iff)
qed

lemma map_is_ws_titleCase: "map is_ws (titleCase s) = map is_ws s"
proof (induction s rule: titleCase.induct)
  case 1
  then show ?case by simp
next
  case (2 c cs)
  have "map is_ws (takeWhile (\<lambda>x. \<not> is_ws x) cs) @ map is_ws (dropWhile (\<lambda>x. \<not> is_ws x) cs)
      = map is_ws cs"
    by (simp flip: map_append)
  then show ?case using 2 by (simp add: toLowerCase_def comp_def)
qed

lemma blank_titleCase [simp]: "blank (titleCase s) = blank s"
proof -
  have "blank (titleCase s) = list_all id (map is_ws (titleCase s))"
    by (simp add: blank_def list_all_iff)
  also have "\<dots> = list_all id (map is_ws s)" by (simp add: map_is_ws_titleCase)
  also have "\<dots> = blank s" by (simp add: blank_def list_all_iff)
  finally show ?thesis .
qed

lemma nonws_dropWhile:
  "filter (\<lambda>c. \<not> is_ws c) (dropWhile is_ws s) = filter (\<lambda>c. \<not> is_ws c) s"
  by (induction s) auto

lemma nonws_trim: "filter (\<lambda>c. \<not> is_ws c) (trim s) = filter (\<lambda>c. \<not> is_ws c) s"
proof -
  have "filter (\<lambda>c. \<not> is_ws c) (trim s)
      = rev (filter (\<lambda>c. \<not> is_ws c) (dropWhile is_ws (rev (dropWhile is_ws s))))"
    by (simp add: trim_def rev_filter)
  also have "\<dots> = rev (filter (\<lambda>c. \<not> is_ws c) (rev (dropWhile is_ws s)))"
    by (simp only: nonws_dropWhile)
  also have "\<dots> = filter (\<lambda>c. \<not> is_ws c) (dropWhile is_ws s)"
    by (simp add: rev_filter)
  finally show ?thesis by (simp add: nonws_dropWhile)
qed

lemma nonws_replace_ws_runs:
  "filter (\<lambda>c. \<not> is_ws c) (replace_ws_runs s) = filter (\<lambda>c. \<not> is_ws c) s"
proof (induction s rule: replace_ws_runs.induct)
  case 1
  then show ?case by simp
next
  case (2 c cs)
  then show ?case by (simp add: nonws_dropWhile is_ws_Char)
qed

lemma nonws_cleanText: "filter (\<lambda>c. \<not> is_ws c) (cleanText s) = filter (\<lambda>c. \<not> is_ws c) s"
  by (simp add: cleanText_def nonws_trim nonws_replace_ws_runs)

lemma blank_filter: "blank s \<longleftrightarrow> filter (\<lambda>c. \<not> is_ws c) s = []"
  by (auto simp: blank_iff filter_empty_conv)

lemma blank_cleanText_iff [simp]: "blank (cleanText s) = blank s"
  by (simp add: blank_filter nonws_cleanText)

lemma blank_toLowerCase [simp]: "blank (toLowerCase s) = blank s"
  by (simp add: blank_iff toLowerCase_def)

lemma not_blank_not_Nil: "\<not> blank s \<Longrightarrow> s \<noteq> []"
  by auto

lemma company_key: "\<not> blank n \<Longrightarrow> normalizeOwnerKey (Company n) \<noteq> []"
  using not_blank_not_Nil[of "toLowerCase (cleanText n)"] by simp

lemma not_company_Nil: "\<not> isCompanyName []"
  by (simp add: regex_evals char_evals)

lemma normalize_segment_not_blank: "normalize_segment s \<noteq> [] \<Longrightarrow> \<not> blank (normalize_segment s)"
  unfolding normalize_segment_def by (rule trim_not_blank)

lemma normalize_segment_Nil: "normalize_segment [] = []"
  by (simp add: normalize_segment_def cleanText_def trim_def)

lemma parse_single_company:
  assumes comma: "CHR '','' \<notin> set rawText"
    and co: "isCompanyName (normalize_segment (normalize_text rawText))"
  shows "parseOwnersFromText (Some rawText) =
     Inr \<lparr>owners = [Company (titleCase (normalize_segment (normalize_text rawText)))],
          invalids = []\<rparr>"
proof -
  let ?text = "normalize_text rawText"
  let ?seg = "normalize_segment ?text"
  have seg: "?seg \<noteq> []" using co not_company_Nil by auto
  then have tne: "?text \<noteq> []" using normalize_segment_Nil by auto
  then have raw: "rawText \<noteq> []"
    by (auto simp: normalize_text_def cleanText_def trim_def)
  have "CHR '','' \<notin> set ?text" using comma set_normalize_text[of rawText] by auto
  then have split: "js_split False COMMA_SPLIT ?text = [?text]"
    using tne by (rule js_split_no_comma)
  have key: "normalizeOwnerKey (Company (titleCase ?seg)) \<noteq> []"
    using normalize_segment_not_blank[OF seg] by (intro company_key) simp
  have "collectOwners rawText =
      Inr \<lparr>owners = [Company (titleCase ?seg)], invalids = [], lastSurname = None,
           localLastSurname = None\<rparr>"
    using seg co tne by (simp add: collectOwners_def split pushOwnerOrInvalid_def Let_def)
  then show ?thesis using raw key
    by (simp add: parseOwnersFromText_def truthy_def or_empty_def)
qed

section \<open>What the patterns match\<close>

text \<open>A literal matches at a position exactly when it stands there ignoring case, and the
  match ends after it. From this: \<open>SUFFIXES_IGNORE\<close> matches a token exactly when the token is
  one of the suffixes ignoring case (\<open>suffix_test\<close>), and \<open>COMPANY_KEYWORDS\<close> matches a text
  exactly when it contains one of the indicators made of letters as a whole word, or one of
  the two dotted forms at the start of a word with white space or a word character after it
  (\<open>isCompanyName_iff\<close>).\<close>

lemma chr_eq_ci: "length a = length b \<Longrightarrow> list_all2 (chr_eq True) a b = ci_equal a b"
  by (induction a b rule: list_induct2) (auto simp: chr_eq_def ci_equal_def)

lemma ci_equal_length: "ci_equal a b \<Longrightarrow> length a = length b"
  using map_eq_imp_length_eq by (auto simp: ci_equal_def)

lemma rx_ends_lit:
  "rx_ends True (lit w) (p, s) = (if ci_prefix w s then [pos_after w (p, s)] else [])"
proof (induction w arbitrary: p s)
  case Nil
  then show ?case by (simp add: ci_prefix_def ci_equal_def lit.simps)
next
  case (Cons c w)
  show ?case
  proof (cases s)
    case Nil
    then show ?thesis by (simp add: ci_prefix_def lit.simps)
  next
    case (Cons x xs)
    show ?thesis
    proof (cases "chr_eq True c x")
      case True
      then have "ci_prefix (c # w) (x # xs) = ci_prefix w xs"
        by (auto simp: ci_prefix_def ci_equal_def chr_eq_def)
      moreover have "w \<noteq> [] \<Longrightarrow> (x # xs) ! length w = xs ! (length w - 1)"
        by (cases w) auto
      ultimately show ?thesis using True Cons Cons.IH[of "Some x" xs]
        by (auto simp: lit.simps)
    next
      case False
      then have "\<not> ci_prefix (c # w) (x # xs)"
        by (auto simp: ci_prefix_def ci_equal_def chr_eq_def)
      then show ?thesis using False Cons by (simp add: lit.simps)
    qed
  qed
qed

lemma set_rx_ends_alts:
  "set (rx_ends ic (alts rs) pos) = (\<Union>r\<in>set rs. set (rx_ends ic r pos))"
  by (induction rs) (auto simp: alts.simps)

lemma rx_ends_alts_Nil:
  "rx_ends ic (alts rs) pos = [] \<longleftrightarrow> (\<forall>r\<in>set rs. rx_ends ic r pos = [])"
  by (induction rs) (auto simp: alts.simps)

lemma rx_ends_Seq_Nil:
  "rx_ends ic (Seq a b) pos = [] \<longleftrightarrow> (\<forall>m\<in>set (rx_ends ic a pos). rx_ends ic b m = [])"
  by auto

lemma rx_search_any_pos: "rx_search ic r p s = any_pos (\<lambda>q. rx_ends ic r q \<noteq> []) p s"
  by (induction s arbitrary: p) auto

lemma any_pos_cong: "(\<And>q. P q = Q q) \<Longrightarrow> any_pos P p s = any_pos Q p s"
  by (induction s arbitrary: p) auto

lemma any_pos_Bol:
  "any_pos (\<lambda>q. fst q = None \<and> P q) p s = (p = None \<and> P (None, s))"
proof -
  have some: "\<not> any_pos (\<lambda>q. fst q = None \<and> P q) (Some c) u" for c u
    by (induction u arbitrary: c) auto
  show ?thesis by (cases s; cases p) (auto simp: some)
qed

lemma ends_Eol: "rx_ends ic Eol m \<noteq> [] \<longleftrightarrow> snd m = []"
  by (cases m) simp

lemma ends_Seq_Eol:
  "rx_ends ic (Seq A Eol) pos \<noteq> [] \<longleftrightarrow> (\<exists>m\<in>set (rx_ends ic A pos). snd m = [])"
  unfolding rx_ends_Seq_Nil by (simp add: ends_Eol)

lemma ci_prefix_whole: "ci_prefix w t \<and> length t \<le> length w \<longleftrightarrow> ci_equal w t"
proof
  assume a: "ci_prefix w t \<and> length t \<le> length w"
  then have "length w = length t" by (simp add: ci_prefix_def)
  then show "ci_equal w t" using a by (simp add: ci_prefix_def)
next
  assume e: "ci_equal w t"
  then have "length w = length t" by (rule ci_equal_length)
  then show "ci_prefix w t \<and> length t \<le> length w" using e by (simp add: ci_prefix_def)
qed

lemma ends_alts_lit:
  "(\<exists>m\<in>set (rx_ends True (alts (map lit ws)) (p, s)). Q m) \<longleftrightarrow>
     (\<exists>w\<in>set ws. ci_prefix w s \<and> Q (pos_after w (p, s)))"
  unfolding set_rx_ends_alts by (auto simp: rx_ends_lit split: if_splits)

lemma anchored_words:
  "rx_test True (Seq Bol (Seq (alts (map lit ws)) Eol)) t \<longleftrightarrow> (\<exists>w\<in>set ws. ci_equal w t)"
proof -
  let ?X = "Seq (alts (map lit ws)) Eol"
  have "rx_test True (Seq Bol ?X) t
      = any_pos (\<lambda>q. fst q = None \<and> rx_ends True ?X q \<noteq> []) None t"
    unfolding rx_test_def rx_search_any_pos
    by (rule any_pos_cong) (auto split: if_splits)
  also have "\<dots> = (rx_ends True ?X (None, t) \<noteq> [])"
    by (simp only: any_pos_Bol simp_thms)
  also have "\<dots> = (\<exists>w\<in>set ws. ci_prefix w t \<and> snd (pos_after w (None, t)) = [])"
    unfolding ends_Seq_Eol by (rule ends_alts_lit)
  also have "\<dots> = (\<exists>w\<in>set ws. ci_equal w t)"
    by (simp add: ci_prefix_whole)
  finally show ?thesis .
qed

lemma suffix_test: "rx_test True SUFFIXES_IGNORE t = is_suffix_word t"
  unfolding SUFFIXES_IGNORE_def is_suffix_word_def list_ex_iff
  using anchored_words[of SUFFIX_WORDS t] by (simp only: SUFFIX_WORDS_def)


lemma is_word_to_upper [simp]: "is_word (to_upper c) = is_word c"
  by (cases c) (simp add: char_evals, blast)

lemma is_word_ci: "to_upper x = to_upper c \<Longrightarrow> is_word x = is_word c"
  using is_word_to_upper[of x] is_word_to_upper[of c] by simp

lemma ws_not_word_after: "(case s of [] \<Rightarrow> False | c # cs \<Rightarrow> is_ws c) \<Longrightarrow> \<not> word_after s"
  by (cases s) (auto simp: is_ws_not_word)

lemma trailer_iff:
  "rx_ends ic (Or WordB Ws) (p, s) \<noteq> [] \<longleftrightarrow>
     (word_before p \<noteq> word_after s) \<or> (case s of [] \<Rightarrow> False | c # cs \<Rightarrow> is_ws c)"
  by (cases s) auto

lemma ci_prefix_last:
  assumes "ci_prefix w s" and "w \<noteq> []"
  shows "is_word (s ! (length w - 1)) = is_word (last w)"
proof -
  have len: "length w \<le> length s" and eq: "map to_upper w = map to_upper (take (length w) s)"
    using assms(1) by (auto simp: ci_prefix_def ci_equal_def)
  have i: "length w - 1 < length w" using assms(2) by (cases w) auto
  have "to_upper (w ! (length w - 1)) = to_upper (take (length w) s ! (length w - 1))"
    using arg_cong[OF eq, of "\<lambda>l. l ! (length w - 1)"] i len by simp
  then have "to_upper (last w) = to_upper (s ! (length w - 1))"
    using i assms(2) by (simp add: last_conv_nth)
  then show ?thesis using is_word_ci by metis
qed

lemma ci_prefix_first:
  assumes "ci_prefix w s" and "w \<noteq> []" and "is_word (hd w)"
  shows "word_after s"
proof -
  obtain c w' where w: "w = c # w'" using assms(2) by (cases w) auto
  obtain x xs where s: "s = x # xs" using assms(1) w by (cases s) (auto simp: ci_prefix_def)
  have "to_upper c = to_upper x" using assms(1) w s by (simp add: ci_prefix_def ci_equal_def)
  then show ?thesis using assms(3) w s is_word_ci[of x c] by simp
qed

lemma shape_plain:
  assumes "w \<noteq> []" and "is_word (last w)"
  shows "(\<exists>m\<in>set (rx_ends True (lit w) (p, s)). rx_ends True (Or WordB Ws) m \<noteq> [])
     \<longleftrightarrow> breaks_after w s"
proof (cases "ci_prefix w s")
  case True
  have lw: "is_word (s ! (length w - 1))" using ci_prefix_last[OF True assms(1)] assms(2) by simp
  show ?thesis
    using True assms(1) lw ws_not_word_after[of "drop (length w) s"]
    by (auto simp: rx_ends_lit trailer_iff breaks_after_def simp del: rx_ends.simps)
next
  case False
  then show ?thesis by (simp add: rx_ends_lit breaks_after_def)
qed

lemma shape_wordb:
  assumes "w \<noteq> []" and "is_word (last w)"
  shows "(\<exists>m\<in>set (rx_ends True (Seq (lit w) WordB) (p, s)). rx_ends True (Or WordB Ws) m \<noteq> [])
     \<longleftrightarrow> breaks_after w s"
proof (cases "ci_prefix w s")
  case True
  have lw: "is_word (s ! (length w - 1))" using ci_prefix_last[OF True assms(1)] assms(2) by simp
  show ?thesis
    using True assms(1) lw
    by (auto simp: rx_ends_lit breaks_after_def)
next
  case False
  then show ?thesis by (simp add: rx_ends_lit breaks_after_def)
qed

lemma shape_dot:
  assumes "w \<noteq> []" and "is_word (last w)"
  shows "(\<exists>m\<in>set (rx_ends True (Seq (lit w) (Opt (Chr CHR ''.''))) (p, s)).
            rx_ends True (Or WordB Ws) m \<noteq> [])
     \<longleftrightarrow> breaks_after w s"
proof (cases "ci_prefix w s")
  case True
  have lw: "is_word (s ! (length w - 1))" using ci_prefix_last[OF True assms(1)] assms(2) by simp
  have dot: "\<And>x. chr_eq True CHR ''.'' x \<Longrightarrow> \<not> is_word x"
    using is_word_ci[of _ "CHR ''.''"] by (auto simp: chr_eq_def is_word_Char)
  show ?thesis
  proof (cases "drop (length w) s")
    case Nil
    then show ?thesis using True assms(1) lw
      by (auto simp: rx_ends_lit breaks_after_def)
  next
    case (Cons x xs)
    then show ?thesis using True assms(1) lw dot[of x] is_ws_not_word[of x]
      by (auto simp: rx_ends_lit breaks_after_def)
  qed
next
  case False
  then show ?thesis by (simp add: rx_ends_lit breaks_after_def)
qed

lemma shape_dotted:
  assumes "w \<noteq> []" and "\<not> is_word (last w)"
  shows "(\<exists>m\<in>set (rx_ends True (lit w) (p, s)). rx_ends True (Or WordB Ws) m \<noteq> [])
     \<longleftrightarrow> joins_after w s"
proof (cases "ci_prefix w s")
  case True
  have lw: "\<not> is_word (s ! (length w - 1))"
    using ci_prefix_last[OF True assms(1)] assms(2) by simp
  show ?thesis
    using True assms(1) lw
    by (cases "drop (length w) s") (auto simp: rx_ends_lit trailer_iff joins_after_def simp del: rx_ends.simps)
next
  case False
  then show ?thesis by (simp add: rx_ends_lit joins_after_def)
qed


lemma seq_alts:
  "rx_ends ic (Seq (alts As) T) m \<noteq> [] \<longleftrightarrow>
     (\<exists>A\<in>set As. \<exists>m'\<in>set (rx_ends ic A m). rx_ends ic T m' \<noteq> [])"
  unfolding rx_ends_Seq_Nil set_rx_ends_alts by blast

lemma keyword_group:
  "rx_ends True (Seq (alts
        [Seq (lit ''inc'') (Opt (Chr CHR ''.'')),
         lit ''l.l.c.'',
         lit ''llc'',
         Seq (lit ''ltd'') (Opt (Chr CHR ''.'')),
         lit ''foundation'',
         lit ''alliance'',
         lit ''solutions'',
         Seq (lit ''corp'') (Opt (Chr CHR ''.'')),
         Seq (lit ''co'') (Opt (Chr CHR ''.'')),
         lit ''services'',
         Seq (lit ''trust'') WordB,
         Seq (lit ''tr'') WordB,
         lit ''associates'',
         lit ''partners'',
         Seq (lit ''lp'') WordB,
         Seq (lit ''llp'') WordB,
         Seq (lit ''bank'') WordB,
         lit ''n.a.'',
         Seq (lit ''na'') WordB,
         Seq (lit ''pllc'') WordB,
         lit ''company'',
         lit ''enterprises'',
         lit ''properties'',
         lit ''holdings'']) (Or WordB Ws)) (p, s) \<noteq> [] \<longleftrightarrow> keyword_at s"
  unfolding seq_alts
  apply (simp add: shape_plain shape_dot shape_wordb shape_dotted keyword_at_def
      LETTER_INDICATORS_def DOTTED_FORMS_def is_word_Char in_1_26_def del: rx_ends.simps)
  apply blast
  done


lemma keyword_at_word_after: "keyword_at s \<Longrightarrow> word_after s"
proof -
  assume "keyword_at s"
  then obtain w where w: "w \<in> set LETTER_INDICATORS \<union> set DOTTED_FORMS" and "ci_prefix w s"
    by (auto simp: keyword_at_def breaks_after_def joins_after_def)
  moreover have "w \<noteq> [] \<and> is_word (hd w)"
    using w by (auto simp: LETTER_INDICATORS_def DOTTED_FORMS_def is_word_Char in_1_26_def)
  ultimately show ?thesis using ci_prefix_first by blast
qed

lemma company_match_at:
  "rx_ends True COMPANY_KEYWORDS (p, s) \<noteq> [] \<longleftrightarrow>
     company_at (p, s) \<or> (case s of [] \<Rightarrow> False | x # xs \<Rightarrow> is_ws x \<and> company_at (Some x, xs))"
proof -
  have lead: "set (rx_ends True (Or WordB Ws) (p, s)) =
      (if word_before p \<noteq> word_after s then {(p, s)} else {}) \<union>
      (case s of [] \<Rightarrow> {} | x # xs \<Rightarrow> if is_ws x then {(Some x, xs)} else {})"
    by (cases s) auto
  show ?thesis
    unfolding COMPANY_KEYWORDS_def rx_ends_Seq_Nil[of True "Or WordB Ws"] lead
    using keyword_at_word_after[of s]
    by (cases s) (auto simp: keyword_group company_at_def is_ws_not_word simp del: rx_ends.simps)
qed

lemma any_pos_here: "P (p, s) \<Longrightarrow> any_pos P p s"
  by (cases s) auto

lemma any_pos_shift:
  assumes "\<And>p x xs. R (p, x # xs) \<Longrightarrow> N (Some x, xs)" and "\<And>p. \<not> R (p, [])"
  shows "any_pos (\<lambda>q. N q \<or> R q) p s = any_pos N p s"
proof (induction s arbitrary: p)
  case Nil
  then show ?case using assms(2) by simp
next
  case (Cons x xs)
  then show ?case using assms(1)[of p x xs] any_pos_here[of N "Some x" xs] by auto
qed

lemma any_pos_disj: "any_pos (\<lambda>q. A q \<or> B q) p s = (any_pos A p s \<or> any_pos B p s)"
  by (induction s arbitrary: p) auto

lemma any_pos_bex: "any_pos (\<lambda>q. \<exists>w\<in>W. F w q) p s = (\<exists>w\<in>W. any_pos (F w) p s)"
  by (induction s arbitrary: p) auto

lemma company_search: "isCompanyName s = any_pos company_at None s"
proof -
  let ?R = "\<lambda>q. case snd q of [] \<Rightarrow> False | x # xs \<Rightarrow> is_ws x \<and> company_at (Some x, xs)"
  have "isCompanyName s = any_pos (\<lambda>q. company_at q \<or> ?R q) None s"
    unfolding isCompanyName_def rx_test_def rx_search_any_pos
    by (rule any_pos_cong) (simp add: company_match_at split_paired_all del: rx_ends.simps)
  also have "\<dots> = any_pos company_at None s"
    by (rule any_pos_shift) auto
  finally show ?thesis .
qed

lemma company_at_words:
  "company_at = (\<lambda>q. (\<exists>w\<in>set LETTER_INDICATORS. whole_word_at w q)
     \<or> (\<exists>w\<in>set DOTTED_FORMS. dotted_form_at w q))"
  by (rule ext) (auto simp: company_at_def keyword_at_def breaks_after_def joins_after_def
      whole_word_at_def dotted_form_at_def word_starts_at_def)

lemma isCompanyName_iff:
  "isCompanyName s \<longleftrightarrow>
     (\<exists>w\<in>set LETTER_INDICATORS. contains_whole_word w s)
     \<or> (\<exists>w\<in>set DOTTED_FORMS. contains_dotted_form w s)"
  unfolding company_search contains_whole_word_def contains_dotted_form_def
  by (simp only: company_at_words any_pos_disj any_pos_bex)

lemma any_pos_mono:
  "(\<And>q. P q \<Longrightarrow> Q q) \<Longrightarrow> any_pos P p s \<Longrightarrow> any_pos Q p s"
  by (induction s arbitrary: p) auto

lemma dotted_form_word_start: "contains_dotted_form w s \<Longrightarrow> contains_word_start w s"
  unfolding contains_dotted_form_def contains_word_start_def
  by (rule any_pos_mono[of "dotted_form_at w"]) (simp_all add: dotted_form_at_def)

section \<open>The company classifier\<close>

text \<open>
  The claim C3 as it is written says that \<open>isCompanyName\<close> is true exactly when the text
  contains one of the 23 indicators as a whole word. The pattern also lists the dotted form
  \<^verbatim>\<open>l.l.c.\<close>, which is none of them: the text \<^verbatim>\<open>A L.L.C. B\<close> is taken for a company and
  contains no indicator as a whole word.
\<close>

theorem C3_indicator_list_refuted:
  "isCompanyName ''A L.L.C. B'' \<and> \<not> contains_indicator ''A L.L.C. B''"
  by (simp add: char_evals regex_evals spec_evals)

text \<open>
  C3, amended: \<open>isCompanyName\<close> is true whenever the text contains, as a whole word ignoring
  case, one of the indicators made of letters (inc, llc, ltd, foundation, alliance, solutions,
  corp, co, services, trust, tr, associates, partners, lp, llp, bank, na, pllc, company,
  enterprises, properties, holdings), and whenever it contains one of the dotted forms
  \<^verbatim>\<open>l.l.c.\<close> and \<^verbatim>\<open>n.a.\<close> at the start of a word with white space or a word character after
  it; and it is true only if the text contains one of those indicators as a whole word or
  one of the two dotted forms at the start of a word.
\<close>

theorem C3_company_classifier:
  "(\<forall>w\<in>set LETTER_INDICATORS. contains_whole_word w s \<longrightarrow> isCompanyName s)
   \<and> (\<forall>w\<in>set DOTTED_FORMS. contains_dotted_form w s \<longrightarrow> isCompanyName s)
   \<and> (isCompanyName s \<longrightarrow>
        (\<exists>w\<in>set LETTER_INDICATORS. contains_whole_word w s)
        \<or> (\<exists>w\<in>set DOTTED_FORMS. contains_word_start w s))"
  using isCompanyName_iff [of s] dotted_form_word_start [of _ s] by blast

theorem C3_company_classifier_witness:
  "''llc'' \<in> set LETTER_INDICATORS \<and> contains_whole_word ''llc'' ''ACME LLC''
   \<and> isCompanyName ''ACME LLC''
   \<and> ''n.a.'' \<in> set DOTTED_FORMS \<and> contains_dotted_form ''n.a.'' ''FIRST N.A. OF X''
   \<and> isCompanyName ''FIRST N.A. OF X''
   \<and> ((\<exists>w\<in>set LETTER_INDICATORS. contains_whole_word w ''A L.L.C. B'')
        \<or> (\<exists>w\<in>set DOTTED_FORMS. contains_word_start w ''A L.L.C. B''))"
proof -
  have h1: "''llc'' \<in> set LETTER_INDICATORS \<and> contains_whole_word ''llc'' ''ACME LLC''"
    by (simp add: char_evals spec_evals)
  have h2: "''n.a.'' \<in> set DOTTED_FORMS \<and> contains_dotted_form ''n.a.'' ''FIRST N.A. OF X''"
    by (simp add: char_evals spec_evals)
  have h3: "isCompanyName ''A L.L.C. B''"
    by (simp add: char_evals regex_evals)
  show ?thesis
    using h1 h2 h3 C3_company_classifier [of "''ACME LLC''"]
      C3_company_classifier [of "''FIRST N.A. OF X''"] C3_company_classifier [of "''A L.L.C. B''"]
    by blast
qed

section \<open>What the parser collects\<close>

text \<open>The tokens of the tokenizer are not empty and hold no white space. Title case changes
  the case of letters only, so the words of a title-cased middle name are the tokens that the
  suffix filter kept. Hence every person built from tokens, and every owner that the parser
  collects, is clean; on clean owners the loop of lines 233-244 is the deduplication of the
  specification.\<close>

lemma ws_of_replace_ws_runs:
  "c \<in> set (replace_ws_runs s) \<Longrightarrow> is_ws c \<Longrightarrow> c = CHR '' ''"
proof (induction s rule: replace_ws_runs.induct)
  case 1
  then show ?case by simp
next
  case (2 d ds)
  then show ?case by (auto split: if_splits)
qed

lemma split_char_loop_pieces:
  "t \<in> set (split_char_loop d acc s) \<Longrightarrow> set t \<subseteq> set acc \<union> (set s - {d})"
proof (induction s arbitrary: acc)
  case Nil
  then show ?case by simp
next
  case (Cons c cs)
  show ?case
  proof (cases "c = d")
    case True
    then have "t = acc \<or> t \<in> set (split_char_loop d [] cs)" using Cons.prems by simp
    then show ?thesis using Cons.IH[of "[]"] by auto
  next
    case False
    then have "t \<in> set (split_char_loop d (acc @ [c]) cs)" using Cons.prems by simp
    from Cons.IH[OF this] show ?thesis using False by auto
  qed
qed

lemma tokenize_good: "t \<in> set (tokenizeNamePart part) \<Longrightarrow> good_token t"
proof -
  let ?Y = "map (\<lambda>c. if name_char c then c else CHR '' '') (strip_stars (cleanText part))"
  let ?X = "trim (replace_ws_runs ?Y)"
  assume "t \<in> set (tokenizeNamePart part)"
  then have ne: "t \<noteq> []" and t: "t \<in> set (split_char_loop CHR '' '' [] ?X)"
    by (auto simp: tokenizeNamePart_def split_char_def)
  have "\<not> is_ws c" if c: "c \<in> set t" for c
  proof
    assume ws: "is_ws c"
    have "c \<in> set ?X" and sp: "c \<noteq> CHR '' ''"
      using split_char_loop_pieces[OF t] c by auto
    then have "c \<in> set (replace_ws_runs ?Y)" using set_trim by blast
    from ws_of_replace_ws_runs[OF this ws] sp show False by simp
  qed
  then show ?thesis using ne by (simp add: good_token_def list_all_iff)
qed

lemma tokenize_all_good: "list_all good_token (tokenizeNamePart part)"
  using tokenize_good by (auto simp: list_all_iff)

lemma good_token_not_blank: "good_token t \<Longrightarrow> \<not> blank t"
  by (cases t) (auto simp: good_token_def blank_def)

lemma map_upper_titleCase: "map to_upper (titleCase s) = map to_upper s"
proof (induction s rule: titleCase.induct)
  case 1
  then show ?case by simp
next
  case (2 c cs)
  have "map to_upper (takeWhile (\<lambda>x. \<not> is_ws x) cs) @ map to_upper (dropWhile (\<lambda>x. \<not> is_ws x) cs)
      = map to_upper cs"
    by (simp flip: map_append)
  then show ?case using 2 by (simp add: toLowerCase_def comp_def)
qed

lemma ws_words_map:
  assumes "\<And>c. is_ws (f c) = is_ws c"
  shows "ws_words (map f s) = map (map f) (ws_words s)"
proof (induction s rule: ws_words.induct)
  case 1
  then show ?case by simp
next
  case (2 c cs)
  have tw: "takeWhile (\<lambda>x. \<not> is_ws x) (map f cs) = map f (takeWhile (\<lambda>x. \<not> is_ws x) cs)"
    by (simp add: takeWhile_map comp_def assms)
  have dw: "dropWhile (\<lambda>x. \<not> is_ws x) (map f cs) = map f (dropWhile (\<lambda>x. \<not> is_ws x) cs)"
    by (simp add: dropWhile_map comp_def assms)
  show ?case using 2 by (simp add: assms tw dw)
qed

lemma ws_words_upper_titleCase:
  "map (map to_upper) (ws_words (titleCase s)) = map (map to_upper) (ws_words s)"
proof -
  have "map (map to_upper) (ws_words (titleCase s)) = ws_words (map to_upper (titleCase s))"
    by (simp add: ws_words_map)
  also have "\<dots> = ws_words (map to_upper s)" by (simp add: map_upper_titleCase)
  also have "\<dots> = map (map to_upper) (ws_words s)" by (simp add: ws_words_map)
  finally show ?thesis .
qed

lemma is_suffix_word_upper: "is_suffix_word (map to_upper w) = is_suffix_word w"
  by (simp add: is_suffix_word_def ci_equal_def comp_def)

lemma suffix_words_titleCase:
  "list_ex is_suffix_word (ws_words (titleCase s)) = list_ex is_suffix_word (ws_words s)"
proof -
  have "list_ex is_suffix_word (ws_words u)
      = list_ex is_suffix_word (map (map to_upper) (ws_words u))" for u
    by (simp add: list_ex_iff is_suffix_word_upper)
  then show ?thesis by (simp only: ws_words_upper_titleCase)
qed

lemma ws_words_good_append:
  assumes "good_token t" and "rest = [] \<or> is_ws (hd rest)"
  shows "ws_words (t @ rest) = t # ws_words rest"
proof -
  obtain c cs where t: "t = c # cs" using assms(1) by (cases t) (auto simp: good_token_def)
  have c: "\<not> is_ws c" and cs: "\<forall>x\<in>set cs. \<not> is_ws x"
    using assms(1) t by (auto simp: good_token_def list_all_iff)
  have tw: "takeWhile (\<lambda>x. \<not> is_ws x) (cs @ rest) = cs"
    using cs assms(2) by (cases rest) (auto simp: takeWhile_append2)
  have dw: "dropWhile (\<lambda>x. \<not> is_ws x) (cs @ rest) = rest"
    using cs assms(2) by (cases rest) (auto simp: dropWhile_append2)
  show ?thesis unfolding t using c by (simp add: tw dw)
qed

lemma ws_words_join:
  "list_all good_token ts \<Longrightarrow> ws_words (join '' '' ts) = ts"
proof (induction ts)
  case Nil
  then show ?case by simp
next
  case (Cons x xs)
  show ?case
  proof (cases xs)
    case Nil
    then show ?thesis using Cons.prems ws_words_good_append[of x "[]"] by simp
  next
    case (Cons y ys)
    have "ws_words (x @ '' '' @ join '' '' xs) = x # ws_words ('' '' @ join '' '' xs)"
      using Cons.prems by (intro ws_words_good_append) (auto simp: is_ws_Char)
    then show ?thesis using Cons Cons.IH Cons.prems by (simp add: is_ws_Char)
  qed
qed

lemma split_char_loop_append:
  "d \<notin> set t \<Longrightarrow> split_char_loop d acc (t @ rest) = split_char_loop d (acc @ t) rest"
  by (induction t arbitrary: acc) auto

lemma good_token_no_space: "good_token t \<Longrightarrow> CHR '' '' \<notin> set t"
  by (auto simp: good_token_def list_all_iff is_ws_Char)

lemma split_char_loop_join:
  "list_all good_token ts \<Longrightarrow> ts \<noteq> [] \<Longrightarrow>
     split_char_loop CHR '' '' acc (join '' '' ts) = (acc @ hd ts) # tl ts"
proof (induction ts arbitrary: acc)
  case Nil
  then show ?case by simp
next
  case (Cons x xs)
  show ?case
  proof (cases xs)
    case Nil
    then show ?thesis
      using Cons.prems split_char_loop_append[of "CHR '' ''" x acc "[]"]
        good_token_no_space[of x] by simp
  next
    case (Cons y ys)
    have "split_char_loop CHR '' '' acc (x @ '' '' @ join '' '' xs)
        = split_char_loop CHR '' '' (acc @ x) ('' '' @ join '' '' xs)"
      using Cons.prems good_token_no_space[of x] by (intro split_char_loop_append) simp
    then show ?thesis using Cons Cons.IH[of "[]"] Cons.prems by simp
  qed
qed

lemma split_char_join:
  "list_all good_token ts \<Longrightarrow> ts \<noteq> [] \<Longrightarrow> split_char CHR '' '' (join '' '' ts) = ts"
  by (simp add: split_char_def split_char_loop_join)


lemma clean_owner_Person: "clean_owner (Person f m l) = (\<not> blank f \<and> good_middle m)"
  by (simp add: good_middle_def)

lemma set_join: "x \<in> set xs \<Longrightarrow> set x \<subseteq> set (join sep xs)"
proof (induction xs)
  case Nil
  then show ?case by simp
next
  case (Cons y ys)
  then show ?case by (cases ys) auto
qed

lemma not_blank_join: "x \<in> set xs \<Longrightarrow> \<not> blank x \<Longrightarrow> \<not> blank (join sep xs)"
  using set_join[of x xs sep] by (auto simp: blank_iff)

lemma middle_of_good:
  assumes good: "list_all good_token mids" and ne: "join '' '' mids \<noteq> []"
    and ns: "list_all (\<lambda>t. \<not> is_suffix_word t) mids"
  shows "good_middle (Some (titleCase (join '' '' mids)))"
proof -
  obtain x where x: "x \<in> set mids" using ne by (cases mids) auto
  then have "\<not> blank x" using good good_token_not_blank by (auto simp: list_all_iff)
  then have nb: "\<not> blank (join '' '' mids)" using x by (rule not_blank_join[rotated])
  have "\<not> list_ex is_suffix_word mids" using ns by (auto simp: list_all_iff list_ex_iff)
  then have "\<not> list_ex is_suffix_word (ws_words (titleCase (join '' '' mids)))"
    by (simp add: suffix_words_titleCase ws_words_join[OF good])
  then show ?thesis using nb by (simp add: good_middle_def)
qed

lemma join_good_not_Nil: "list_all good_token ts \<Longrightarrow> ts \<noteq> [] \<Longrightarrow> join '' '' ts \<noteq> []"
  by (cases ts; cases "tl ts") (auto simp: good_token_def)

lemma final_middle_good:
  assumes good: "list_all good_token ts" and ne: "ts \<noteq> []"
  shows "good_middle
     (if truthy (clean_middle (Some (join '' '' ts)))
      then Some (titleCase (or_empty (clean_middle (Some (join '' '' ts))))) else None)"
proof -
  let ?mids = "filter (\<lambda>t. \<not> is_suffix_word t) ts"
  have cm: "clean_middle (Some (join '' '' ts)) = or_null (Some (join '' '' ?mids))"
    using join_good_not_Nil[OF good ne]
    by (simp add: clean_middle_def truthy_def or_empty_def split_char_join[OF good ne] suffix_test)
  have g: "list_all good_token ?mids" using good by (auto simp: list_all_iff)
  have n: "list_all (\<lambda>t. \<not> is_suffix_word t) ?mids" by (auto simp: list_all_iff)
  show ?thesis
  proof (cases "join '' '' ?mids = []")
    case True
    then show ?thesis by (simp add: cm or_null_def truthy_def good_middle_def)
  next
    case False
    then show ?thesis using middle_of_good[OF g False n]
      by (simp add: cm or_null_def truthy_def or_empty_def)
  qed
qed

lemma final_middle_None:
  "good_middle (if truthy (clean_middle None)
      then Some (titleCase (or_empty (clean_middle None))) else None)"
  by (simp add: clean_middle_def truthy_def good_middle_def)

lemma good_titleCase: "good_token t \<Longrightarrow> \<not> blank (titleCase t)"
  by (simp add: good_token_not_blank)

lemma or_empty_Some [simp]: "or_empty (Some x) = x"
  by (simp add: or_empty_def)

lemma or_null_Some: "x \<noteq> [] \<Longrightarrow> or_null (Some x) = Some x"
  by (simp add: or_null_def truthy_def)

lemma good_token_Nil [simp]: "\<not> good_token []"
  by (simp add: good_token_def)

lemma build_two:
  "buildPersonFromTokens (t0 # t1 # rest) fb =
     Some (Person
       (titleCase (or_empty (if surname_omitted (t0 # t1 # rest) fb then Some t0
                             else or_null (Some t1))))
       (if truthy (clean_middle
             (if surname_omitted (t0 # t1 # rest) fb then or_null (Some t1)
              else if rest \<noteq> [] then Some (join '' '' rest) else None))
        then Some (titleCase (or_empty (clean_middle
             (if surname_omitted (t0 # t1 # rest) fb then or_null (Some t1)
              else if rest \<noteq> [] then Some (join '' '' rest) else None))))
        else None)
       (titleCase (or_empty (if surname_omitted (t0 # t1 # rest) fb then fb else Some t0))))"
  by (simp add: buildPersonFromTokens_def Let_def at_def)

lemma build_clean:
  assumes good: "list_all good_token tokens"
    and b: "buildPersonFromTokens tokens fb = Some p"
  shows "clean_owner p"
proof -
  have len: "2 \<le> length tokens"
    using b build_none_iff[of tokens fb] by (cases "length tokens < 2") auto
  then obtain t0 t1 rest where tk: "tokens = t0 # t1 # rest"
    by (cases tokens; cases "tl tokens") auto
  have g0: "good_token t0" and g1: "good_token t1" and gr: "list_all good_token rest"
    using good tk by auto
  have t1ne: "t1 \<noteq> []" using g1 by (cases t1) auto
  have p: "Some p = buildPersonFromTokens (t0 # t1 # rest) fb" using b tk by simp
  show ?thesis
  proof (cases "surname_omitted (t0 # t1 # rest) fb")
    case True
    have m: "good_middle (if truthy (clean_middle (Some t1))
        then Some (titleCase (or_empty (clean_middle (Some t1)))) else None)"
      using final_middle_good[of "[t1]", unfolded join.simps] g1 by simp
    have "p = Person (titleCase t0)
        (if truthy (clean_middle (Some t1))
         then Some (titleCase (or_empty (clean_middle (Some t1)))) else None)
        (titleCase (or_empty fb))"
      using p unfolding build_two by (simp add: True or_null_Some[OF t1ne])
    then show ?thesis using m good_titleCase[OF g0]
      by (simp add: clean_owner_Person del: clean_owner.simps)
  next
    case False
    show ?thesis
    proof (cases rest)
      case Nil
      have "p = Person (titleCase t1)
          (if truthy (clean_middle None)
           then Some (titleCase (or_empty (clean_middle None))) else None) (titleCase t0)"
        using p False unfolding build_two Nil by (simp add: or_null_Some[OF t1ne])
      then show ?thesis using final_middle_None good_titleCase[OF g1]
        by (simp add: clean_owner_Person del: clean_owner.simps)
    next
      case (Cons r rs)
      then have rne: "rest \<noteq> []" by simp
      have m: "good_middle (if truthy (clean_middle (Some (join '' '' rest)))
          then Some (titleCase (or_empty (clean_middle (Some (join '' '' rest))))) else None)"
        using gr rne by (intro final_middle_good) auto
      have "p = Person (titleCase t1)
          (if truthy (clean_middle (Some (join '' '' rest)))
           then Some (titleCase (or_empty (clean_middle (Some (join '' '' rest))))) else None)
          (titleCase t0)"
        using p unfolding build_two by (simp add: False rne or_null_Some[OF t1ne])
      then show ?thesis using m good_titleCase[OF g1]
        by (simp add: clean_owner_Person del: clean_owner.simps)
    qed
  qed
qed

lemma pushed_clean:
  "list_all good_token tokens \<Longrightarrow> list_all clean_owner (pushed (buildPersonFromTokens tokens fb))"
  using build_clean by (cases "buildPersonFromTokens tokens fb") auto

lemma shared_last_loop_clean:
  "good_token l \<Longrightarrow> list_all good_token rem \<Longrightarrow> list_all clean_owner (shared_last_loop l rem)"
  by (induction l rem rule: shared_last_loop.induct) (auto simp: pushed_clean)

lemma split_clean:
  "list_all good_token tokens \<Longrightarrow>
     list_all clean_owner (splitMultiplePersonsWithSharedLast tokens)"
  by (cases tokens) (auto simp: splitMultiplePersonsWithSharedLast_def shared_last_loop_clean)

lemma good_take: "list_all good_token ts \<Longrightarrow> list_all good_token (take n ts)"
  using set_take_subset[of n ts] by (auto simp: list_all_iff)

lemma good_drop: "list_all good_token ts \<Longrightarrow> list_all good_token (drop n ts)"
  using set_drop_subset[of n ts] by (auto simp: list_all_iff)

lemma blind_split_clean:
  assumes "list_all good_token tokens" and "blind_split tokens = Some (p1, p2)"
  shows "clean_owner p1 \<and> clean_owner p2"
  using assms build_clean[OF good_take[OF assms(1)], of 3 None p1]
    build_clean[OF good_drop[OF assms(1)], of 3 "at tokens 0" p2]
  by (auto simp: blind_split_def split: option.splits)


lemma process_part_clean:
  assumes "process_part n idx part st = Inr st'" and "list_all clean_owner (owners st)"
  shows "list_all clean_owner (owners st')"
proof -
  let ?tokens = "tokenizeNamePart part"
  have g: "list_all good_token ?tokens" by (rule tokenize_all_good)
  note sc = split_clean[OF g]
  have bc: "\<And>fb p. buildPersonFromTokens ?tokens fb = Some p \<Longrightarrow> clean_owner p"
    using build_clean[OF g] .
  have bs: "\<And>p1 p2. blind_split ?tokens = Some (p1, p2) \<Longrightarrow> clean_owner p1 \<and> clean_owner p2"
    using blind_split_clean[OF g] .
  show ?thesis using assms sc bc bs
    by (auto simp: process_part_def Let_def split: if_splits option.splits)
qed

lemma forEach_parts_clean:
  "forEach_parts n idx parts st = Inr st' \<Longrightarrow> list_all clean_owner (owners st) \<Longrightarrow>
     list_all clean_owner (owners st')"
proof (induction parts arbitrary: idx st)
  case Nil
  then show ?case by simp
next
  case (Cons part parts)
  then obtain st1 where s1: "process_part n idx part st = Inr st1"
    and rest: "forEach_parts n (Suc idx) parts st1 = Inr st'"
    by (auto split: sum.splits)
  show ?case using process_part_clean[OF s1 Cons.prems(2)] Cons.IH[OF rest] by blast
qed

lemma pushOwnerOrInvalid_clean:
  assumes "pushOwnerOrInvalid segment st = Inr st'" and "list_all clean_owner (owners st)"
  shows "list_all clean_owner (owners st')"
proof (cases "normalize_segment segment = []")
  case True
  then show ?thesis using assms by (simp add: pushOwnerOrInvalid_def)
next
  case False
  note nb = normalize_segment_not_blank[OF False]
  show ?thesis
  proof (cases "isCompanyName (normalize_segment segment)")
    case True
    then show ?thesis using assms False nb by (auto simp: pushOwnerOrInvalid_def)
  next
    case nc: False
    let ?parts = "filter (\<lambda>s. s \<noteq> []) (js_split True AND_SPLIT (normalize_segment segment))"
    have "forEach_parts (length ?parts) 0 ?parts (st\<lparr>localLastSurname := None\<rparr>) = Inr st'"
      using assms(1) False nc by (simp add: pushOwnerOrInvalid_def Let_def)
    from forEach_parts_clean[OF this] assms(2) show ?thesis by simp
  qed
qed

lemma forEach_segments_clean:
  "forEach_segments segs st = Inr st' \<Longrightarrow> list_all clean_owner (owners st) \<Longrightarrow>
     list_all clean_owner (owners st')"
proof (induction segs arbitrary: st)
  case Nil
  then show ?case by simp
next
  case (Cons seg segs)
  then obtain st1 where s1: "pushOwnerOrInvalid seg st = Inr st1"
    and rest: "forEach_segments segs st1 = Inr st'"
    by (auto split: sum.splits)
  show ?case using pushOwnerOrInvalid_clean[OF s1 Cons.prems(2)] Cons.IH[OF rest] by blast
qed

lemma collectOwners_clean:
  "collectOwners rawText = Inr st \<Longrightarrow> list_all clean_owner (owners st)"
  unfolding collectOwners_def by (erule forEach_segments_clean) simp

lemma blank_trim: "blank (trim s) = blank s"
  by (simp add: blank_filter nonws_trim)

lemma trim_Nil_iff: "trim s = [] \<longleftrightarrow> blank s"
proof
  assume "trim s = []"
  then have "blank (trim s)" by simp
  then show "blank s" by (simp only: blank_trim)
next
  assume "blank s"
  then have "blank (trim s)" by (simp only: blank_trim)
  then show "trim s = []" using trim_not_blank[of s] by blast
qed

lemma clean_nullify: "clean_owner x \<Longrightarrow> nullify_middle x = x"
proof (cases x)
  case (Person f m l)
  assume "clean_owner x"
  then show ?thesis using Person
    by (cases m) (auto simp: truthy_def trim_Nil_iff)
next
  case (Company n)
  then show ?thesis by simp
qed

lemma clean_key: "clean_owner x \<Longrightarrow> normalizeOwnerKey x \<noteq> []"
proof (cases x)
  case (Person f m l)
  assume "clean_owner x"
  then have f: "\<not> blank (toLowerCase f)" using Person by simp
  then have "toLowerCase f \<noteq> []" using blank_Nil by metis
  then have "toLowerCase f \<in> set (filter (\<lambda>s. s \<noteq> [])
      [toLowerCase f, toLowerCase (or_empty m), toLowerCase l])" by simp
  from not_blank_join[OF this f]
  show ?thesis using Person by (simp add: trim_Nil_iff)
next
  case (Company n)
  assume "clean_owner x"
  then show ?thesis using Company company_key by simp
qed

lemma dedupe_first:
  "list_all clean_owner xs \<Longrightarrow>
     dedupe seen xs =
       first_occurrences normalizeOwnerKey (filter (\<lambda>x. normalizeOwnerKey x \<notin> seen) xs)"
proof (induction xs arbitrary: seen)
  case Nil
  then show ?case by simp
next
  case (Cons x xs)
  let ?k = "normalizeOwnerKey"
  have k: "?k x \<noteq> []" and n: "nullify_middle x = x" and cl: "list_all clean_owner xs"
    using Cons.prems clean_key clean_nullify by auto
  show ?case
  proof (cases "?k x \<in> seen")
    case True
    then show ?thesis using Cons.IH[OF cl, of seen] by simp
  next
    case False
    have f: "filter (\<lambda>y. ?k y \<noteq> ?k x) (filter (\<lambda>y. ?k y \<notin> seen) xs)
        = filter (\<lambda>y. ?k y \<notin> insert (?k x) seen) xs"
      by (induction xs) auto
    have "dedupe seen (x # xs) = x # dedupe (insert (?k x) seen) xs"
      using False k n by simp
    also have "\<dots> = x # first_occurrences ?k (filter (\<lambda>y. ?k y \<notin> insert (?k x) seen) xs)"
      using Cons.IH[OF cl, of "insert (?k x) seen"] by simp
    also have "\<dots> = first_occurrences ?k (x # filter (\<lambda>y. ?k y \<notin> seen) xs)"
      by (simp only: first_occurrences.simps f)
    also have "\<dots> = first_occurrences ?k (filter (\<lambda>y. ?k y \<notin> seen) (x # xs))"
      using False by simp
    finally show ?thesis .
  qed
qed

lemma set_first_occurrences: "set (first_occurrences key xs) \<subseteq> set xs"
proof (induction key xs rule: first_occurrences.induct)
  case (1 key)
  then show ?case by simp
next
  case (2 key x xs)
  then show ?case by auto
qed

lemma distinct_first_occurrences: "distinct (map key (first_occurrences key xs))"
proof (induction key xs rule: first_occurrences.induct)
  case (1 key)
  then show ?case by simp
next
  case (2 key x xs)
  then show ?case
    using set_first_occurrences[of key "filter (\<lambda>y. key y \<noteq> key x) xs"] by auto
qed

lemma collectOwners_Nil:
  "collectOwners [] = Inr \<lparr>owners = [], invalids = [], lastSurname = None, localLastSurname = None\<rparr>"
  by (simp add: collectOwners_def normalize_text_def cleanText_def trim_def js_split_def
      COMMA_SPLIT_def rx_ends.simps(13))

lemma parse_dedup:
  "\<exists>st. collectOwners s = Inr st \<and>
     parseOwnersFromText (Some s) =
       Inr \<lparr>owners = first_occurrences normalizeOwnerKey (owners st), invalids = invalids st\<rparr>"
proof (cases "s = []")
  case True
  then show ?thesis by (simp add: collectOwners_Nil parseOwnersFromText_def truthy_def)
next
  case False
  obtain st where st: "collectOwners s = Inr st"
    unfolding collectOwners_def using forEach_segments_total by blast
  have "dedupe {} (owners st) = first_occurrences normalizeOwnerKey (owners st)"
    using dedupe_first[OF collectOwners_clean[OF st], of "{}"] by simp
  then show ?thesis using st False by (simp add: parseOwnersFromText_def truthy_def)
qed

lemma clean_middle_without_suffix: "clean_owner x \<Longrightarrow> middle_without_suffix x"
  by (cases x) (auto simp: middle_without_suffix_def split: option.splits)

lemma parse_clean:
  "\<exists>r. parseOwnersFromText rawText = Inr r \<and> list_all clean_owner (owners r)
     \<and> distinct (map normalizeOwnerKey (owners r))"
proof (cases rawText)
  case None
  then show ?thesis by (simp add: parseOwnersFromText_def truthy_def)
next
  case (Some s)
  obtain st where st: "collectOwners s = Inr st"
    and p: "parseOwnersFromText (Some s) =
       Inr \<lparr>owners = first_occurrences normalizeOwnerKey (owners st), invalids = invalids st\<rparr>"
    using parse_dedup by blast
  have "list_all clean_owner (first_occurrences normalizeOwnerKey (owners st))"
    using collectOwners_clean[OF st] set_first_occurrences[of normalizeOwnerKey "owners st"]
    by (auto simp: list_all_iff)
  then show ?thesis using Some p distinct_first_occurrences[of normalizeOwnerKey "owners st"]
    by simp
qed

section \<open>Deduplication\<close>

text \<open>
  C7: in every result no two owners have the same normalized key, and the owners of the
  result are the owners collected from the text with the first occurrence of every key kept
  and the order preserved. This holds for every text, so for every order of its fragments.
\<close>

theorem C7_owner_keys_distinct:
  "(\<exists>r. parseOwnersFromText rawText = Inr r \<and> distinct (map normalizeOwnerKey (owners r)))
   \<and> (\<exists>st. collectOwners s = Inr st \<and>
         parseOwnersFromText (Some s) =
           Inr \<lparr>owners = first_occurrences normalizeOwnerKey (owners st),
                invalids = invalids st\<rparr>)"
  using parse_clean [of rawText] parse_dedup [of s] by blast

theorem C7_owner_keys_witness:
  "(\<exists>st. collectOwners ''DOE JANE, ACME LLC, doe jane'' = Inr st \<and>
      owners st = [Person ''Jane'' None ''Doe'', Company ''Acme Llc'', Person ''Jane'' None ''Doe''])
   \<and> parseOwnersFromText (Some ''DOE JANE, ACME LLC, doe jane'') =
        Inr \<lparr>owners = [Person ''Jane'' None ''Doe'', Company ''Acme Llc''], invalids = []\<rparr>
   \<and> distinct (map normalizeOwnerKey [Person ''Jane'' None ''Doe'', Company ''Acme Llc''])"
proof -
  have p: "parseOwnersFromText (Some ''DOE JANE, ACME LLC, doe jane'') =
        Inr \<lparr>owners = [Person ''Jane'' None ''Doe'', Company ''Acme Llc''], invalids = []\<rparr>"
    by (simp add: parser_evals)
  have c: "collectOwners ''DOE JANE, ACME LLC, doe jane'' =
      Inr \<lparr>owners = [Person ''Jane'' None ''Doe'', Company ''Acme Llc'',
                     Person ''Jane'' None ''Doe''],
           invalids = [], lastSurname = Some ''DOE'', localLastSurname = Some ''doe''\<rparr>"
    by (simp add: parser_evals)
  have d: "\<exists>r. parseOwnersFromText (Some ''DOE JANE, ACME LLC, doe jane'') = Inr r
      \<and> distinct (map normalizeOwnerKey (owners r))"
    using C7_owner_keys_distinct [of "Some ''DOE JANE, ACME LLC, doe jane''" "[]"] by (rule conjunct1)
  have "distinct (map normalizeOwnerKey [Person ''Jane'' None ''Doe'', Company ''Acme Llc''])"
    using d unfolding p by (simp del: normalizeOwnerKey.simps)
  then show ?thesis unfolding p c by (simp del: normalizeOwnerKey.simps)
qed

section \<open>Suffixes and the middle name\<close>

text \<open>
  C8: for every input, every person of the result has a middle name that is absent, or is
  not empty and has among its words (separated by white space) none that is equal, ignoring
  case, to one of the suffixes jr, sr, ii, iii, iv, v, vi, vii, viii, ix, x, md, phd, esq,
  esquire. When only suffixes follow the first name the middle name is absent, as for
  \<^verbatim>\<open>SMITH JOHN JR\<close>; the suffixes are removed from the middle name only, so \<^verbatim>\<open>SMITH JR\<close>
  gives the first name \<^verbatim>\<open>Jr\<close>.
\<close>

theorem C8_no_suffix_in_middle_name:
  "(\<exists>r. parseOwnersFromText rawText = Inr r \<and> list_all middle_without_suffix (owners r))
   \<and> parseOwnersFromText (Some ''SMITH JOHN JR'') =
        Inr \<lparr>owners = [Person ''John'' None ''Smith''], invalids = []\<rparr>
   \<and> parseOwnersFromText (Some ''SMITH JR'') =
        Inr \<lparr>owners = [Person ''Jr'' None ''Smith''], invalids = []\<rparr>"
proof -
  obtain r where r: "parseOwnersFromText rawText = Inr r" and c: "list_all clean_owner (owners r)"
    using parse_clean [of rawText] by blast
  have "list_all middle_without_suffix (owners r)"
    using c clean_middle_without_suffix by (auto simp: list_all_iff)
  moreover have "parseOwnersFromText (Some ''SMITH JOHN JR'') =
        Inr \<lparr>owners = [Person ''John'' None ''Smith''], invalids = []\<rparr>"
    by (simp add: parser_evals)
  moreover have "parseOwnersFromText (Some ''SMITH JR'') =
        Inr \<lparr>owners = [Person ''Jr'' None ''Smith''], invalids = []\<rparr>"
    by (simp add: parser_evals)
  ultimately show ?thesis using r by blast
qed

theorem C8_no_suffix_witness:
  "parseOwnersFromText (Some ''SMITH JOHN PAUL PHD & MARY ANN'') =
     Inr \<lparr>owners = [Person ''John'' (Some ''Paul'') ''Smith'',
                    Person ''Mary'' (Some ''Ann'') ''Smith''],
          invalids = []\<rparr>
   \<and> list_all middle_without_suffix
        [Person ''John'' (Some ''Paul'') ''Smith'', Person ''Mary'' (Some ''Ann'') ''Smith'']"
proof -
  have p: "parseOwnersFromText (Some ''SMITH JOHN PAUL PHD & MARY ANN'') =
     Inr \<lparr>owners = [Person ''John'' (Some ''Paul'') ''Smith'',
                    Person ''Mary'' (Some ''Ann'') ''Smith''],
          invalids = []\<rparr>"
    by (simp add: parser_evals)
  show ?thesis
    using C8_no_suffix_in_middle_name [of "Some ''SMITH JOHN PAUL PHD & MARY ANN''"]
    unfolding p by simp
qed

section \<open>Cleaning a text keeps its whole words\<close>

text \<open>
  The parser classifies the cleaned text of a segment, the claims speak of the text that is
  given. A keyword made of letters that stands in the text as a whole word still stands in
  the cleaned text as a whole word: trimming, the removal of leading asterisks and the
  collapse of white space rewrite only characters that are neither letters nor word
  characters next to the keyword.
\<close>

lemma any_pos_split:
  "any_pos P p s \<longleftrightarrow> (\<exists>u r. s = u @ r \<and> P (if u = [] then p else Some (last u), r))"
proof (induction s arbitrary: p)
  case Nil
  then show ?case by simp
next
  case (Cons x xs)
  show ?case
  proof
    assume "any_pos P p (x # xs)"
    then consider "P (p, x # xs)" | "any_pos P (Some x) xs" by auto
    then show "\<exists>u r. x # xs = u @ r \<and> P (if u = [] then p else Some (last u), r)"
    proof cases
      case 1
      then have "x # xs = [] @ (x # xs) \<and> P (if [] = [] then p else Some (last []), x # xs)"
        by simp
      then show ?thesis by blast
    next
      case 2
      then obtain u r where ur: "xs = u @ r"
        and P: "P (if u = [] then Some x else Some (last u), r)"
        using Cons.IH[of "Some x"] by blast
      have "x # xs = (x # u) @ r \<and> P (if x # u = [] then p else Some (last (x # u)), r)"
        using ur P by (cases u) auto
      then show ?thesis by blast
    qed
  next
    assume "\<exists>u r. x # xs = u @ r \<and> P (if u = [] then p else Some (last u), r)"
    then obtain u r where ur: "x # xs = u @ r"
      and P: "P (if u = [] then p else Some (last u), r)" by blast
    show "any_pos P p (x # xs)"
    proof (cases u)
      case Nil
      then show ?thesis using ur P by auto
    next
      case (Cons y ys)
      then have "xs = ys @ r" and "P (if ys = [] then Some x else Some (last ys), r)"
        using ur P by (auto split: if_splits)
      then have "any_pos P (Some x) xs" using Cons.IH[of "Some x"] by blast
      then show ?thesis by simp
    qed
  qed
qed

lemma ci_prefix_split: "ci_prefix w r \<longleftrightarrow> (\<exists>x v. r = x @ v \<and> ci_equal w x)"
proof
  assume "ci_prefix w r"
  then have "r = take (length w) r @ drop (length w) r \<and> ci_equal w (take (length w) r)"
    by (simp add: ci_prefix_def)
  then show "\<exists>x v. r = x @ v \<and> ci_equal w x" by blast
next
  assume "\<exists>x v. r = x @ v \<and> ci_equal w x"
  then obtain x v where r: "r = x @ v" and e: "ci_equal w x" by blast
  have "length w = length x" using e by (rule ci_equal_length)
  then show "ci_prefix w r" using r e by (simp add: ci_prefix_def)
qed

lemma contains_whole_word_framed:
  "contains_whole_word w s \<longleftrightarrow> (\<exists>x. ci_equal w x \<and> framed x s)"
proof
  assume "contains_whole_word w s"
  then obtain u r where s: "s = u @ r"
    and ww: "whole_word_at w (if u = [] then None else Some (last u), r)"
    unfolding contains_whole_word_def any_pos_split by blast
  from ww have lo: "left_ok u" and pre: "ci_prefix w r" and wa: "\<not> word_after (drop (length w) r)"
    by (auto simp: whole_word_at_def word_starts_at_def left_ok_def split: if_splits)
  from pre obtain x v where r: "r = x @ v" and e: "ci_equal w x"
    unfolding ci_prefix_split by blast
  have "length w = length x" using e by (rule ci_equal_length)
  then have "\<not> word_after v" using wa r by simp
  then have "framed x s" using s r lo unfolding framed_def by blast
  then show "\<exists>x. ci_equal w x \<and> framed x s" using e by blast
next
  assume "\<exists>x. ci_equal w x \<and> framed x s"
  then obtain x u v where e: "ci_equal w x" and s: "s = u @ x @ v" and lo: "left_ok u"
    and wa: "\<not> word_after v"
    unfolding framed_def by blast
  have len: "length w = length x" using e by (rule ci_equal_length)
  have "ci_prefix w (x @ v)" unfolding ci_prefix_split using e by blast
  then have "whole_word_at w (if u = [] then None else Some (last u), x @ v)"
    using lo wa len by (auto simp: whole_word_at_def word_starts_at_def left_ok_def)
  then show "contains_whole_word w s"
    unfolding contains_whole_word_def any_pos_split using s by blast
qed

lemma is_letter_to_upper [simp]: "is_letter (to_upper c) = is_letter c"
  by (cases c) (auto simp: char_evals)

lemma ci_equal_solid:
  assumes "ci_equal w x" and "solid w"
  shows "solid x"
proof -
  have len: "length w = length x" using assms(1) by (rule ci_equal_length)
  have "list_all is_letter x"
    unfolding list_all_length
  proof (intro allI impI)
    fix i assume i: "i < length x"
    have "map to_upper w ! i = map to_upper x ! i"
      using assms(1) by (simp add: ci_equal_def)
    then have "to_upper (w ! i) = to_upper (x ! i)"
      using i len by simp
    moreover have "is_letter (w ! i)" using assms(2) i len by (simp add: solid_def list_all_length)
    ultimately show "is_letter (x ! i)"
      using is_letter_to_upper[of "w ! i"] is_letter_to_upper[of "x ! i"] by simp
  qed
  then show ?thesis using assms(2) len by (auto simp: solid_def)
qed

lemma letter_not_ws: "is_letter c \<Longrightarrow> \<not> is_ws c"
  by (auto simp: is_letter_def is_ws_def Let_def)

lemma letter_not_star: "is_letter c \<Longrightarrow> c \<noteq> CHR ''*''"
  by (cases c) (auto simp: is_letter_Char in_1_26_def)

lemma solid_hd: "solid x \<Longrightarrow> is_letter (hd x)"
  by (cases x) (auto simp: solid_def)

lemma solid_last: "solid x \<Longrightarrow> is_letter (last x)"
  by (auto simp: solid_def list_all_iff)

lemma solid_no_ws: "solid x \<Longrightarrow> \<forall>c\<in>set x. \<not> is_ws c"
  by (auto simp: solid_def list_all_iff letter_not_ws)


lemma dropWhile_append_solid:
  "y \<noteq> [] \<Longrightarrow> \<not> P (hd y) \<Longrightarrow> dropWhile P (u @ y) = dropWhile P u @ y"
  by (induction u) (auto simp: dropWhile_eq_self_iff)

lemma last_dropWhile: "dropWhile P u \<noteq> [] \<Longrightarrow> last (dropWhile P u) = last u"
  by (induction u) (auto split: if_splits)

lemma left_ok_dropWhile:
  assumes "left_ok u"
  shows "left_ok (dropWhile P u)"
proof (cases "dropWhile P u = []")
  case True
  then show ?thesis by (simp only: left_ok_def simp_thms)
next
  case False
  then have "u \<noteq> []" by auto
  then have "\<not> is_word (last u)" using assms by (simp add: left_ok_def)
  then show ?thesis unfolding left_ok_def last_dropWhile[OF False] by blast
qed

lemma hd_rtrim:
  assumes "rev (dropWhile P (rev v)) \<noteq> []"
  shows "hd (rev (dropWhile P (rev v))) = hd v"
proof -
  have "rev v = takeWhile P (rev v) @ dropWhile P (rev v)" by simp
  then have "v = rev (dropWhile P (rev v)) @ rev (takeWhile P (rev v))"
    by (metis rev_append rev_rev_ident)
  then show ?thesis using assms by (metis hd_append2)
qed

lemma word_after_hd: "word_after v \<longleftrightarrow> v \<noteq> [] \<and> is_word (hd v)"
  by (cases v) auto

lemma framed_trim:
  assumes "solid x" and "framed x s"
  shows "framed x (trim s)"
proof -
  obtain u v where s: "s = u @ x @ v" and lo: "left_ok u" and wa: "\<not> word_after v"
    using assms(2) unfolding framed_def by blast
  have xne: "x \<noteq> []" using assms(1) by (simp add: solid_def)
  have h: "\<not> is_ws (hd x)" and l: "\<not> is_ws (last x)"
    using solid_hd[OF assms(1)] solid_last[OF assms(1)] letter_not_ws by auto
  let ?u = "dropWhile is_ws u"
  let ?v = "rev (dropWhile is_ws (rev v))"
  have d1: "dropWhile is_ws (u @ x @ v) = ?u @ x @ v"
    using xne h by (intro dropWhile_append_solid) auto
  have d2: "dropWhile is_ws (rev v @ rev x @ rev ?u) = dropWhile is_ws (rev v) @ rev x @ rev ?u"
    using xne l by (intro dropWhile_append_solid) (auto simp: hd_rev)
  have t: "trim s = ?u @ x @ ?v"
    unfolding s trim_def d1 by (simp add: d2)
  have "\<not> word_after ?v"
  proof (cases "?v = []")
    case True
    then show ?thesis by (simp only: word_after.simps simp_thms)
  next
    case False
    then have "v \<noteq> []" by auto
    then have "\<not> is_word (hd v)" using wa by (simp add: word_after_hd)
    then show ?thesis unfolding word_after_hd hd_rtrim[OF False] by blast
  qed
  then show ?thesis unfolding framed_def t using left_ok_dropWhile[OF lo] by blast
qed

lemma framed_strip_star:
  assumes "solid x" and "framed x s"
  shows "framed x (strip_star s)"
proof -
  obtain u v where s: "s = u @ x @ v" and lo: "left_ok u" and wa: "\<not> word_after v"
    using assms(2) unfolding framed_def by blast
  obtain c cs where x: "x = c # cs" and c: "c \<noteq> CHR ''*''"
    using assms(1) solid_hd[OF assms(1)] letter_not_star by (cases x) (auto simp: solid_def)
  show ?thesis
  proof (cases u)
    case Nil
    then have "strip_star s = [] @ x @ v" using s x c by simp
    then show ?thesis unfolding framed_def using wa by (metis left_ok_def)
  next
    case (Cons d ds)
    show ?thesis
    proof (cases "d = CHR ''*''")
      case True
      have "left_ok ds" using lo Cons by (auto simp: left_ok_def split: if_splits)
      moreover have "strip_star s = ds @ x @ v" using s Cons True by simp
      ultimately show ?thesis unfolding framed_def using wa by blast
    next
      case False
      then have "strip_star s = s" using s Cons by simp
      then show ?thesis using assms(2) by simp
    qed
  qed
qed


lemma runs_append:
  "y = [] \<or> \<not> is_ws (hd y) \<Longrightarrow>
     replace_ws_runs (u @ y) = replace_ws_runs u @ replace_ws_runs y"
proof (induction u rule: replace_ws_runs.induct)
  case 1
  then show ?case by simp
next
  case (2 c cs)
  show ?case
  proof (cases "y = []")
    case True
    then show ?thesis by simp
  next
    case False
    then have d: "dropWhile is_ws (cs @ y) = dropWhile is_ws cs @ y"
      using 2(3) by (intro dropWhile_append_solid) auto
    show ?thesis using 2 by (simp add: d)
  qed
qed

lemma runs_solid: "\<forall>c\<in>set x. \<not> is_ws c \<Longrightarrow> replace_ws_runs (x @ v) = x @ replace_ws_runs v"
  by (induction x) auto

lemma runs_hd: "word_after (replace_ws_runs v) \<Longrightarrow> word_after v"
  by (cases v) (auto simp: is_word_Char split: if_splits)

lemma runs_not_Nil: "u \<noteq> [] \<Longrightarrow> replace_ws_runs u \<noteq> []"
  by (cases u) auto

lemma runs_last_ws:
  "u \<noteq> [] \<Longrightarrow> is_ws (last u) \<Longrightarrow> last (replace_ws_runs u) = CHR '' ''"
proof (induction u rule: replace_ws_runs.induct)
  case 1
  then show ?case by simp
next
  case (2 c cs)
  show ?case
  proof (cases "is_ws c")
    case True
    show ?thesis
    proof (cases "dropWhile is_ws cs = []")
      case e: True
      show ?thesis using True by (simp add: e del: dropWhile_eq_Nil_conv)
    next
      case ne: False
      then have cs: "cs \<noteq> []" by auto
      have "is_ws (last (dropWhile is_ws cs))"
        using 2(4) cs last_dropWhile[OF ne] by simp
      from 2(1)[OF True ne this] show ?thesis
        using True ne runs_not_Nil[OF ne] by (simp del: dropWhile_eq_Nil_conv)
    qed
  next
    case False
    then have cs: "cs \<noteq> []" using 2(4) by (cases cs) auto
    then have "is_ws (last cs)" using 2(4) by simp
    from 2(2)[OF False cs this] show ?thesis using False cs runs_not_Nil[OF cs] by simp
  qed
qed

lemma left_ok_runs:
  assumes "left_ok u"
  shows "left_ok (replace_ws_runs u)"
proof (cases "u = []")
  case True
  then show ?thesis by (simp add: left_ok_def)
next
  case False
  then have nw: "\<not> is_word (last u)" using assms by (simp add: left_ok_def)
  show ?thesis
  proof (cases "is_ws (last u)")
    case True
    then show ?thesis using runs_last_ws[OF False True] by (simp add: left_ok_def is_word_Char)
  next
    case nws: False
    have "replace_ws_runs (butlast u @ [last u]) = replace_ws_runs (butlast u) @ [last u]"
      using nws by (subst runs_append) auto
    then have "last (replace_ws_runs u) = last u" using False by simp
    then show ?thesis using nw by (simp add: left_ok_def)
  qed
qed

lemma framed_runs:
  assumes "solid x" and "framed x s"
  shows "framed x (replace_ws_runs s)"
proof -
  obtain u v where s: "s = u @ x @ v" and lo: "left_ok u" and wa: "\<not> word_after v"
    using assms(2) unfolding framed_def by blast
  have xne: "x \<noteq> []" using assms(1) by (simp add: solid_def)
  have h: "\<not> is_ws (hd x)" using solid_hd[OF assms(1)] letter_not_ws by auto
  have "replace_ws_runs s = replace_ws_runs u @ replace_ws_runs (x @ v)"
    unfolding s using xne h by (intro runs_append) auto
  also have "\<dots> = replace_ws_runs u @ x @ replace_ws_runs v"
    using solid_no_ws[OF assms(1)] by (simp add: runs_solid)
  finally have "replace_ws_runs s = replace_ws_runs u @ x @ replace_ws_runs v" .
  then show ?thesis unfolding framed_def using left_ok_runs[OF lo] wa runs_hd by blast
qed


lemma pairs_append:
  "y = [] \<or> \<not> is_ws (hd y) \<Longrightarrow>
     replace_ws_pairs (u @ y) = replace_ws_pairs u @ replace_ws_pairs y"
proof (induction u rule: replace_ws_pairs.induct)
  case 1
  then show ?case by simp
next
  case (2 c)
  then show ?case by (cases y) auto
next
  case (3 c d cs)
  show ?case
  proof (cases "y = []")
    case True
    then show ?thesis by simp
  next
    case False
    then have dw: "dropWhile is_ws (cs @ y) = dropWhile is_ws cs @ y"
      using 3(3) by (intro dropWhile_append_solid) auto
    show ?thesis using 3 by (simp add: dw)
  qed
qed

lemma pairs_solid:
  "\<forall>c\<in>set x. \<not> is_ws c \<Longrightarrow> replace_ws_pairs (x @ v) = x @ replace_ws_pairs v"
proof (induction x)
  case Nil
  then show ?case by simp
next
  case (Cons c x)
  then show ?case by (cases "x @ v") auto
qed

lemma pairs_hd: "word_after (replace_ws_pairs v) \<Longrightarrow> word_after v"
proof (cases v rule: replace_ws_pairs.cases)
  case (3 c d cs)
  assume "word_after (replace_ws_pairs v)"
  then show ?thesis using 3 by (auto simp: is_word_Char split: if_splits)
qed auto

lemma pairs_not_Nil: "u \<noteq> [] \<Longrightarrow> replace_ws_pairs u \<noteq> []"
  by (cases u rule: replace_ws_pairs.cases) auto

lemma pairs_last_ws:
  "u \<noteq> [] \<Longrightarrow> is_ws (last u) \<Longrightarrow> is_ws (last (replace_ws_pairs u))"
proof (induction u rule: replace_ws_pairs.induct)
  case 1
  then show ?case by simp
next
  case (2 c)
  then show ?case by simp
next
  case (3 c d cs)
  show ?case
  proof (cases "is_ws c \<and> is_ws d")
    case True
    show ?thesis
    proof (cases "dropWhile is_ws cs = []")
      case e: True
      show ?thesis using True by (simp add: e is_ws_Char del: dropWhile_eq_Nil_conv)
    next
      case ne: False
      then have cs: "cs \<noteq> []" by auto
      have "is_ws (last (dropWhile is_ws cs))"
        using 3(4) cs last_dropWhile[OF ne] by simp
      from 3(1)[OF True ne this] show ?thesis
        using True ne pairs_not_Nil[OF ne] by (simp del: dropWhile_eq_Nil_conv)
    qed
  next
    case False
    have l: "is_ws (last (d # cs))" using 3(4) by simp
    have ne: "replace_ws_pairs (d # cs) \<noteq> []" by (rule pairs_not_Nil) simp
    have e: "replace_ws_pairs (c # d # cs) = c # replace_ws_pairs (d # cs)"
      using False by auto
    have "is_ws (last (replace_ws_pairs (d # cs)))" using 3(2)[OF False _ l] by blast
    then show ?thesis unfolding e using ne by (simp del: replace_ws_pairs.simps)
  qed
qed

lemma left_ok_pairs:
  assumes "left_ok u"
  shows "left_ok (replace_ws_pairs u)"
proof (cases "u = []")
  case True
  then show ?thesis by (simp add: left_ok_def)
next
  case False
  then have nw: "\<not> is_word (last u)" using assms by (simp add: left_ok_def)
  show ?thesis
  proof (cases "is_ws (last u)")
    case True
    then show ?thesis
      using pairs_last_ws[OF False True] is_ws_not_word by (auto simp: left_ok_def)
  next
    case nws: False
    have "replace_ws_pairs (butlast u @ [last u]) = replace_ws_pairs (butlast u) @ [last u]"
      using nws by (subst pairs_append) auto
    then have "last (replace_ws_pairs u) = last u" using False by simp
    then show ?thesis using nw by (simp add: left_ok_def)
  qed
qed

lemma framed_pairs:
  assumes "solid x" and "framed x s"
  shows "framed x (replace_ws_pairs s)"
proof -
  obtain u v where s: "s = u @ x @ v" and lo: "left_ok u" and wa: "\<not> word_after v"
    using assms(2) unfolding framed_def by blast
  have xne: "x \<noteq> []" using assms(1) by (simp add: solid_def)
  have h: "\<not> is_ws (hd x)" using solid_hd[OF assms(1)] letter_not_ws by auto
  have "replace_ws_pairs s = replace_ws_pairs u @ replace_ws_pairs (x @ v)"
    unfolding s using xne h by (intro pairs_append) auto
  also have "\<dots> = replace_ws_pairs u @ x @ replace_ws_pairs v"
    using solid_no_ws[OF assms(1)] by (simp add: pairs_solid)
  finally have "replace_ws_pairs s = replace_ws_pairs u @ x @ replace_ws_pairs v" .
  then show ?thesis unfolding framed_def using left_ok_pairs[OF lo] wa pairs_hd by blast
qed

lemma framed_cleanText: "solid x \<Longrightarrow> framed x s \<Longrightarrow> framed x (cleanText s)"
  unfolding cleanText_def by (intro framed_trim framed_runs)

lemma framed_normalize_text: "solid x \<Longrightarrow> framed x s \<Longrightarrow> framed x (normalize_text s)"
  unfolding normalize_text_def
  by (intro framed_trim framed_pairs framed_strip_star framed_cleanText)

lemma framed_normalize_segment: "solid x \<Longrightarrow> framed x s \<Longrightarrow> framed x (normalize_segment s)"
  unfolding normalize_segment_def
  by (intro framed_trim framed_strip_star framed_cleanText)

lemma letter_indicators_solid: "w \<in> set LETTER_INDICATORS \<Longrightarrow> solid w"
  by (auto simp: LETTER_INDICATORS_def solid_def is_letter_Char in_1_26_def)

lemma whole_word_cleaned:
  assumes "w \<in> set LETTER_INDICATORS" and "contains_whole_word w s"
  shows "contains_whole_word w (normalize_segment (normalize_text s))"
proof -
  obtain x where e: "ci_equal w x" and f: "framed x s"
    using assms(2) unfolding contains_whole_word_framed by blast
  have "solid x" using ci_equal_solid[OF e letter_indicators_solid[OF assms(1)]] .
  then have "framed x (normalize_segment (normalize_text s))"
    using f by (intro framed_normalize_segment framed_normalize_text)
  then show ?thesis unfolding contains_whole_word_framed using e by blast
qed

lemma parse_keyword_company:
  assumes "CHR '','' \<notin> set rawText" and "w \<in> set LETTER_INDICATORS"
    and "contains_whole_word w rawText"
  shows "parseOwnersFromText (Some rawText) =
     Inr \<lparr>owners = [Company (titleCase (normalize_segment (normalize_text rawText)))],
          invalids = []\<rparr>"
proof -
  have "isCompanyName (normalize_segment (normalize_text rawText))"
    unfolding isCompanyName_iff using whole_word_cleaned[OF assms(2,3)] assms(2) by blast
  with assms(1) show ?thesis by (rule parse_single_company)
qed

section \<open>A text with a company keyword\<close>

text \<open>
  The claim C4 as it is written says that every text that contains a company keyword as a
  whole word gives exactly one owner, a company named by the whole text in title case. The
  text is split at commas first and every segment is classified on its own: the text
  \<^verbatim>\<open>SMITH JOHN, ACME LLC\<close> contains the keyword and gives a person and a company.
\<close>

theorem C4_comma_refuted:
  "contains_whole_word ''llc'' ''SMITH JOHN, ACME LLC''
   \<and> isCompanyName ''SMITH JOHN, ACME LLC''
   \<and> parseOwnersFromText (Some ''SMITH JOHN, ACME LLC'') =
       Inr \<lparr>owners = [Person ''John'' None ''Smith'', Company ''Acme Llc''], invalids = []\<rparr>"
  by (simp add: parser_evals spec_evals)

text \<open>
  C4, amended: for every text without a comma that contains one of the letter indicators as
  a whole word, and more generally for every text without a comma whose cleaned form the
  classifier takes for a company, the result is exactly one owner, the company named by the
  cleaned text in title case, and no invalid entry. The text \<^verbatim>\<open>ACME LLC\<close> gives the one
  company \<^verbatim>\<open>Acme Llc\<close>.
\<close>

theorem C4_single_company:
  "(CHR '','' \<notin> set rawText \<and> w \<in> set LETTER_INDICATORS \<and> contains_whole_word w rawText \<longrightarrow>
      parseOwnersFromText (Some rawText) =
        Inr \<lparr>owners = [Company (titleCase (normalize_segment (normalize_text rawText)))],
             invalids = []\<rparr>)
   \<and> (CHR '','' \<notin> set rawText \<and> isCompanyName (normalize_segment (normalize_text rawText)) \<longrightarrow>
      parseOwnersFromText (Some rawText) =
        Inr \<lparr>owners = [Company (titleCase (normalize_segment (normalize_text rawText)))],
             invalids = []\<rparr>)
   \<and> parseOwnersFromText (Some ''ACME LLC'') =
        Inr \<lparr>owners = [Company ''Acme Llc''], invalids = []\<rparr>"
proof -
  have example: "parseOwnersFromText (Some ''ACME LLC'') =
        Inr \<lparr>owners = [Company ''Acme Llc''], invalids = []\<rparr>"
    by (simp add: parser_evals)
  show ?thesis
    using example parse_single_company [of rawText] parse_keyword_company [of rawText w]
    by blast
qed

theorem C4_single_company_witness:
  "CHR '','' \<notin> set '' *FIRST  BANK of x ''
   \<and> ''bank'' \<in> set LETTER_INDICATORS
   \<and> contains_whole_word ''bank'' '' *FIRST  BANK of x ''
   \<and> isCompanyName (normalize_segment (normalize_text '' *FIRST  BANK of x ''))
   \<and> parseOwnersFromText (Some '' *FIRST  BANK of x '') =
        Inr \<lparr>owners = [Company ''First Bank Of X''], invalids = []\<rparr>"
proof -
  have n: "normalize_segment (normalize_text '' *FIRST  BANK of x '') = ''FIRST BANK of x''"
    by (simp add: char_evals text_evals normalize_segment_def normalize_text_def)
  have h: "CHR '','' \<notin> set '' *FIRST  BANK of x ''
      \<and> isCompanyName (normalize_segment (normalize_text '' *FIRST  BANK of x ''))"
    unfolding n by (simp add: char_evals regex_evals)
  have k: "''bank'' \<in> set LETTER_INDICATORS" by (simp add: LETTER_INDICATORS_def)
  have c: "contains_whole_word ''bank'' '' *FIRST  BANK of x ''"
    by (simp add: spec_evals char_evals)
  have t: "titleCase ''FIRST BANK of x'' = ''First Bank Of X''"
    by (simp add: char_evals)
  show ?thesis
    using h k c C4_single_company [of "'' *FIRST  BANK of x ''" "''bank''"] unfolding n t
    by simp
qed

end
